theory Spec2Isabelle
  imports Complex_Main "HOL-Library.Multiset" "HOL-Library.Signed_Division"
    "HOL-Library.Monad_Syntax"
begin

section \<open>Contour extraction of \<^verbatim>\<open>src/layout/Contours.js\<close>\<close>

text \<open>
  The embedding follows \<^verbatim>\<open>Contours.js\<close>: the coincidence test, the
  \<^verbatim>\<open>ContourBuilder\<close> (the store of point chains of one level) with
  \<^verbatim>\<open>reverseList\<close>, \<^verbatim>\<open>remove_seq\<close> and \<^verbatim>\<open>addSegment\<close>, and
  \<^verbatim>\<open>buildImplied\<close> with its inner \<^verbatim>\<open>contourList\<close>, \<^verbatim>\<open>closeEnough\<close>,
  \<^verbatim>\<open>code\<close> and \<^verbatim>\<open>compare\<close>.

  Numbers: a JavaScript number is modelled as a rational, so arithmetic is exact and
  there is neither NaN nor an infinity. Edge indices of perimeter codes are integers.
\<close>

subsection \<open>Points\<close>

record point =
  p_x :: rat
  p_y :: rat

definition EPSILON :: rat where
  "EPSILON = 1 / 10 ^ 20"

definition pointsEqual :: "point \<Rightarrow> point \<Rightarrow> bool" where
  "pointsEqual a b =
     (let x = p_x a - p_x b; y = p_y a - p_y b in x * x + y * y < EPSILON)"

subsection \<open>Chains\<close>

text \<open>
  A sequence record \<^verbatim>\<open>{head, tail, next, prev, closed}\<close> owns a doubly linked list of
  nodes \<^verbatim>\<open>{p, prev, next}\<close>. A record is only ever created by case 0 of
  \<^verbatim>\<open>addSegment\<close>, with two nodes, and nodes are never unlinked, so the head node and
  the tail node of a record are always two different nodes. The model keeps the point
  of the head node, the points of the nodes strictly between head and tail in
  \<^verbatim>\<open>next\<close> order, and the point of the tail node. The \<^verbatim>\<open>next\<close>/\<^verbatim>\<open>prev\<close>
  links of the records are the order of the list \<open>cb_s\<close> of the builder; a record is
  identified by its position there. The linked records themselves are modelled further
  down, and the last part shows that they behave as this model does.
\<close>

record chain =
  head :: point
  mid :: "point list"
  tail :: point
  closed_flag :: bool

text \<open>The walk \<^verbatim>\<open>h = s.head; while (h && h.p) { l2.push(h.p); h = h.next; }\<close>.\<close>

definition points_of :: "chain \<Rightarrow> point list" where
  "points_of c = head c # mid c @ [tail c]"

text \<open>
  \<^verbatim>\<open>reverseList\<close> swaps \<^verbatim>\<open>prev\<close> and \<^verbatim>\<open>next\<close> in every node, walking from the
  head, and then swaps \<^verbatim>\<open>head\<close> and \<^verbatim>\<open>tail\<close>.
\<close>

definition reverseList :: "chain \<Rightarrow> chain" where
  "reverseList c = c\<lparr>head := tail c, mid := rev (mid c), tail := head c\<rparr>"

text \<open>
  Cases 1 and 2 of \<^verbatim>\<open>addSegment\<close>: a new node \<^verbatim>\<open>pp\<close> becomes the head
  (\<open>prepend\<close>) or the tail (\<open>append\<close>) of the chain.
\<close>

definition prepend_node :: "point \<Rightarrow> chain \<Rightarrow> chain" where
  "prepend_node q c = c\<lparr>head := q, mid := head c # mid c\<rparr>"

definition append_node :: "point \<Rightarrow> chain \<Rightarrow> chain" where
  "append_node q c = c\<lparr>mid := mid c @ [tail c], tail := q\<rparr>"

text \<open>
  The closing branch of case 3: \<^verbatim>\<open>pp = {p: ma.tail.p, next: ma.head, prev: null}\<close>
  becomes the head and \<^verbatim>\<open>closed\<close> is set.
\<close>

definition close_chain :: "chain \<Rightarrow> chain" where
  "close_chain c = c\<lparr>head := tail c, mid := head c # mid c, closed_flag := True\<rparr>"

text \<open>
  The splice of case 3, \<^verbatim>\<open>u.tail.next = v.head; v.head.prev = u.tail; u.tail = v.tail\<close>:
  the nodes of \<open>v\<close> follow the nodes of \<open>u\<close>; the record \<open>u\<close> survives.
\<close>

definition splice :: "chain \<Rightarrow> chain \<Rightarrow> chain" where
  "splice u v = u\<lparr>mid := mid u @ [tail u, head v] @ mid v, tail := tail v\<rparr>"

subsection \<open>The builder\<close>

record ContourBuilder =
  cb_level :: rat
  cb_s :: "chain list"
  cb_count :: int

definition new_ContourBuilder :: "rat \<Rightarrow> ContourBuilder" where
  "new_ContourBuilder l = \<lparr>cb_level = l, cb_s = [], cb_count = 0\<rparr>"

text \<open>\<^verbatim>\<open>remove_seq\<close> unlinks the record at position \<open>i\<close> and decrements the count.\<close>

definition remove_seq :: "nat \<Rightarrow> ContourBuilder \<Rightarrow> ContourBuilder" where
  "remove_seq i cb =
     cb\<lparr>cb_s := take i (cb_s cb) @ drop (Suc i) (cb_s cb), cb_count := cb_count cb - 1\<rparr>"

text \<open>
  The variables of the scan of \<^verbatim>\<open>addSegment\<close>: \<open>ss\<close> is the position of the record
  the loop is at (\<open>None\<close> for \<^verbatim>\<open>null\<close>), \<open>ma\<close> and \<open>mb\<close> the positions of the matches.
\<close>

record scan_state =
  ss :: "nat option"
  ma :: "nat option"
  mb :: "nat option"
  prependA :: bool
  prependB :: bool

definition scan_init :: scan_state where
  "scan_init = \<lparr>ss = None, ma = None, mb = None, prependA = False, prependB = False\<rparr>"

text \<open>The two \<^verbatim>\<open>if\<close> blocks of the loop body, for \<open>a\<close> and for \<open>b\<close>.\<close>

definition match_a :: "point \<Rightarrow> nat \<Rightarrow> chain \<Rightarrow> scan_state \<Rightarrow> scan_state" where
  "match_a a i c st =
     (if ma st = None then
        (if pointsEqual a (head c) then st\<lparr>ma := Some i, prependA := True\<rparr>
         else if pointsEqual a (tail c) then st\<lparr>ma := Some i\<rparr>
         else st)
      else st)"

definition match_b :: "point \<Rightarrow> nat \<Rightarrow> chain \<Rightarrow> scan_state \<Rightarrow> scan_state" where
  "match_b b i c st =
     (if mb st = None then
        (if pointsEqual b (head c) then st\<lparr>mb := Some i, prependB := True\<rparr>
         else if pointsEqual b (tail c) then st\<lparr>mb := Some i\<rparr>
         else st)
      else st)"

text \<open>
  \<^verbatim>\<open>while (ss) { ...; if (mb != null && ma != null) break; else ss = ss.next; }\<close>
  over the records from position \<open>i\<close> on.
\<close>

fun scan_loop :: "point \<Rightarrow> point \<Rightarrow> chain list \<Rightarrow> nat \<Rightarrow> scan_state \<Rightarrow> scan_state" where
  "scan_loop a b [] i st = st\<lparr>ss := None\<rparr>"
| "scan_loop a b (c # rest) i st =
     (let st1 = match_b b i c (match_a a i c (st\<lparr>ss := Some i\<rparr>))
      in if mb st1 \<noteq> None \<and> ma st1 \<noteq> None then st1
         else scan_loop a b rest (Suc i) st1)"

definition scan :: "point \<Rightarrow> point \<Rightarrow> ContourBuilder \<Rightarrow> scan_state" where
  "scan a b cb = scan_loop a b (cb_s cb) 0 scan_init"

text \<open>
  The inner switch of case 3 on \<^verbatim>\<open>(prependA ? 1 : 0) | (prependB ? 2 : 0)\<close>, for two
  different records at positions \<open>i\<close> (\<^verbatim>\<open>ma\<close>) and \<open>j\<close> (\<^verbatim>\<open>mb\<close>). Cases 0 and 3
  reverse \<^verbatim>\<open>ma\<close> and fall through to cases 1 and 2.
\<close>

definition merge_seqs :: "bool \<Rightarrow> bool \<Rightarrow> nat \<Rightarrow> nat \<Rightarrow> ContourBuilder \<Rightarrow> ContourBuilder" where
  "merge_seqs pA pB i j cb =
     (let cs = cb_s cb; cma = cs ! i; cmb = cs ! j in
      if \<not> pA \<and> \<not> pB then
        remove_seq i (cb\<lparr>cb_s := cs[i := reverseList cma, j := splice cmb (reverseList cma)]\<rparr>)
      else if pA \<and> \<not> pB then
        remove_seq i (cb\<lparr>cb_s := cs[j := splice cmb cma]\<rparr>)
      else if pA \<and> pB then
        remove_seq j (cb\<lparr>cb_s := cs[i := splice (reverseList cma) cmb]\<rparr>)
      else
        remove_seq j (cb\<lparr>cb_s := cs[i := splice cma cmb]\<rparr>))"

text \<open>
  \<^verbatim>\<open>addSegment\<close>: the scan, then the switch on
  \<^verbatim>\<open>c = ((ma != null) ? 1 : 0) | ((mb != null) ? 2 : 0)\<close>.
\<close>

definition addSegment :: "point \<Rightarrow> point \<Rightarrow> ContourBuilder \<Rightarrow> ContourBuilder" where
  "addSegment a b cb =
     (let st = scan a b cb; cs = cb_s cb in
      case (ma st, mb st) of
        (None, None) \<Rightarrow>
          cb\<lparr>cb_s := \<lparr>head = a, mid = [], tail = b, closed_flag = False\<rparr> # cs,
             cb_count := cb_count cb + 1\<rparr>
      | (Some i, None) \<Rightarrow>
          cb\<lparr>cb_s := cs[i := (if prependA st then prepend_node b (cs ! i)
                               else append_node b (cs ! i))]\<rparr>
      | (None, Some j) \<Rightarrow>
          cb\<lparr>cb_s := cs[j := (if prependB st then prepend_node a (cs ! j)
                               else append_node a (cs ! j))]\<rparr>
      | (Some i, Some j) \<Rightarrow>
          if i = j then cb\<lparr>cb_s := cs[i := close_chain (cs ! i)]\<rparr>
          else merge_seqs (prependA st) (prependB st) i j cb)"

text \<open>Feeding segments one by one, in list order.\<close>

definition addSegments :: "(point \<times> point) list \<Rightarrow> ContourBuilder \<Rightarrow> ContourBuilder" where
  "addSegments segs cb = foldl (\<lambda>cb (a, b). addSegment a b cb) cb segs"

subsection \<open>Closing open chains along the boundary\<close>

datatype error = TypeError

record bounds =
  minx :: rat
  maxx :: rat
  miny :: rat
  maxy :: rat

text \<open>
  An array of points built by \<^verbatim>\<open>contourList\<close>, with its properties \<^verbatim>\<open>level\<close> and
  \<^verbatim>\<open>k\<close>. The key \<^verbatim>\<open>k\<close> is the property name of the builder in \<^verbatim>\<open>contours\<close>,
  that is, the index of its level.
\<close>

record polyline =
  pl_points :: "point list"
  pl_level :: rat
  pl_k :: nat

definition closeEnough :: "rat \<Rightarrow> rat \<Rightarrow> bool" where
  "closeEnough a0 b0 = (let ab = a0 - b0 in ab * ab < EPSILON)"

text \<open>
  \<^verbatim>\<open>code(points, chooseLast)\<close>. Reading an index that is not in the array gives
  \<^verbatim>\<open>undefined\<close>, and \<^verbatim>\<open>p.x\<close> then throws a TypeError.
\<close>

definition code :: "bounds \<Rightarrow> point list \<Rightarrow> bool \<Rightarrow> error + (int \<times> rat)" where
  "code bd points chooseLast =
     (let i = (if chooseLast then int (length points) - 1 else 0) in
      if 0 \<le> i \<and> i < int (length points) then
        (let p = points ! nat i in
         Inr (if closeEnough (p_x p) (minx bd) then (0, p_y p)
              else if closeEnough (p_y p) (maxy bd) then (1, p_x p)
              else if closeEnough (p_x p) (maxx bd) then (2, - p_y p)
              else if closeEnough (p_y p) (miny bd) then (3, - p_x p)
              else (0, 0)))
      else Inl TypeError)"

definition compare :: "bounds \<Rightarrow> polyline \<Rightarrow> polyline \<Rightarrow> error + rat" where
  "compare bd a b =
     (case code bd (pl_points a) False of
        Inl e \<Rightarrow> Inl e
      | Inr a0 \<Rightarrow>
          (case code bd (pl_points b) False of
             Inl e \<Rightarrow> Inl e
           | Inr b0 \<Rightarrow>
               if fst a0 = fst b0 then Inr (snd a0 - snd b0)
               else Inr (of_int (fst a0 - fst b0))))"

text \<open>
  \<^verbatim>\<open>Array.prototype.sort(compare)\<close>, modelled as a stable insertion sort; an
  exception of the comparator ends the sort.
\<close>

fun insert_cmp :: "('a \<Rightarrow> 'a \<Rightarrow> error + rat) \<Rightarrow> 'a \<Rightarrow> 'a list \<Rightarrow> error + 'a list" where
  "insert_cmp cmp x [] = Inr [x]"
| "insert_cmp cmp x (y # ys) =
     (case cmp x y of
        Inl e \<Rightarrow> Inl e
      | Inr d \<Rightarrow>
          if d \<le> 0 then Inr (x # y # ys)
          else (case insert_cmp cmp x ys of Inl e \<Rightarrow> Inl e | Inr r \<Rightarrow> Inr (y # r)))"

fun sort_cmp :: "('a \<Rightarrow> 'a \<Rightarrow> error + rat) \<Rightarrow> 'a list \<Rightarrow> error + 'a list" where
  "sort_cmp cmp [] = Inr []"
| "sort_cmp cmp (x # xs) =
     (case sort_cmp cmp xs of Inl e \<Rightarrow> Inl e | Inr r \<Rightarrow> insert_cmp cmp x r)"

text \<open>The corner unshifted for \<^verbatim>\<open>m = c0[0] % 4\<close>.\<close>

definition corner :: "bounds \<Rightarrow> int \<Rightarrow> point" where
  "corner bd m =
     \<lparr>p_x = (if m = 0 \<or> m = 1 then minx bd else maxx bd),
      p_y = (if m = 3 \<or> m = 0 then miny bd else maxy bd)\<rparr>"

text \<open>
  \<^verbatim>\<open>while (c0[0] > c[0]) { var m = c0[0] % 4; fullEdge.unshift(corner); c0[0]--; }\<close>
  with \<open>c0e\<close> for \<^verbatim>\<open>c0[0]\<close> and \<open>ce\<close> for \<^verbatim>\<open>c[0]\<close>; \<^verbatim>\<open>%\<close> is the remainder of
  the truncating division.
\<close>

function corners_loop :: "bounds \<Rightarrow> int \<Rightarrow> int \<Rightarrow> point list \<Rightarrow> point list" where
  "corners_loop bd c0e ce fullEdge =
     (if c0e > ce then corners_loop bd (c0e - 1) ce (corner bd (c0e smod 4) # fullEdge)
      else fullEdge)"
  by pat_completeness auto
termination
  by (relation "measure (\<lambda>(bd, c0e, ce, fullEdge). nat (c0e - ce))") auto

declare corners_loop.simps [simp del]

text \<open>
  The tail of one iteration of the closing loop, from \<^verbatim>\<open>if (c0[0] < c[0]) c0[0] += 4\<close>
  to \<^verbatim>\<open>fullEdge.unshift.apply(fullEdge, edge)\<close>: the new contents of \<^verbatim>\<open>fullEdge\<close>.
\<close>

definition connect :: "bounds \<Rightarrow> point list \<Rightarrow> int \<times> rat \<Rightarrow> int \<times> rat \<Rightarrow> point list \<Rightarrow> point list" where
  "connect bd edge c c0 fullEdge =
     edge @ corners_loop bd (if fst c0 < fst c then fst c0 + 4 else fst c0) (fst c) fullEdge"

text \<open>
  The closing loop \<^verbatim>\<open>for (var i=0; i<unclosed.length; i++)\<close>. \<open>edge\<close> is
  \<^verbatim>\<open>unclosed[i]\<close> as the earlier iterations left it (iteration \<open>i - 1\<close> unshifted into
  the same array, then called \<^verbatim>\<open>fullEdge\<close>), and the list holds
  \<^verbatim>\<open>unclosed[i+1]\<close>, ... . The result is the last value of \<^verbatim>\<open>fullEdge\<close>.
\<close>

fun stitch :: "bounds \<Rightarrow> polyline \<Rightarrow> polyline list \<Rightarrow> error + polyline" where
  "stitch bd edge (fullEdge # rest) =
     (case code bd (pl_points edge) True of
        Inl e \<Rightarrow> Inl e
      | Inr c \<Rightarrow>
          (case code bd (pl_points fullEdge) False of
             Inl e \<Rightarrow> Inl e
           | Inr c0 \<Rightarrow>
               stitch bd
                 (fullEdge\<lparr>pl_points := connect bd (pl_points edge) c c0 (pl_points fullEdge)\<rparr>)
                 rest))"
| "stitch bd edge [] =
     (case code bd (pl_points edge) True of
        Inl e \<Rightarrow> Inl e
      | Inr c' \<Rightarrow>
          (let fullEdge = edge; edge1 = [last (pl_points fullEdge)] in
           case code bd edge1 True of
             Inl e \<Rightarrow> Inl e
           | Inr c \<Rightarrow>
               (case code bd (pl_points fullEdge) False of
                  Inl e \<Rightarrow> Inl e
                | Inr c0 \<Rightarrow>
                    Inr (fullEdge\<lparr>pl_points := connect bd edge1 c c0 (pl_points fullEdge)\<rparr>))))"

text \<open>
  From \<^verbatim>\<open>unclosed.sort(compare)\<close> to \<^verbatim>\<open>if (fullEdge) l.push(fullEdge)\<close>: the arrays
  pushed to \<^verbatim>\<open>l\<close> for the open chains of one level.
\<close>

definition close_unclosed :: "bounds \<Rightarrow> polyline list \<Rightarrow> error + polyline list" where
  "close_unclosed bd unclosed =
     (case sort_cmp (compare bd) unclosed of
        Inl e \<Rightarrow> Inl e
      | Inr [] \<Rightarrow> Inr []
      | Inr (edge # rest) \<Rightarrow>
          (case stitch bd edge rest of Inl e \<Rightarrow> Inl e | Inr fullEdge \<Rightarrow> Inr [fullEdge]))"

text \<open>The array \<^verbatim>\<open>l2\<close> of one chain of the builder with key \<open>k\<close>.\<close>

definition chain_polyline :: "rat \<Rightarrow> nat \<Rightarrow> chain \<Rightarrow> polyline" where
  "chain_polyline lv k c = \<lparr>pl_points = points_of c, pl_level = lv, pl_k = k\<rparr>"

text \<open>
  One round of \<^verbatim>\<open>for (var k in a)\<close>: the closed chains are pushed to \<^verbatim>\<open>l\<close> in
  the order of the chain list, then the closed-up open chains.
\<close>

definition contourList_level :: "bounds \<Rightarrow> nat \<Rightarrow> ContourBuilder \<Rightarrow> error + polyline list" where
  "contourList_level bd k cb =
     (let unclosed = filter (\<lambda>c. \<not> closed_flag c) (cb_s cb);
          closed_ones = filter closed_flag (cb_s cb)
      in case close_unclosed bd (map (chain_polyline (cb_level cb) k) unclosed) of
           Inl e \<Rightarrow> Inl e
         | Inr r \<Rightarrow> Inr (map (chain_polyline (cb_level cb) k) closed_ones @ r))"

text \<open>
  The rounds for the builders with keys \<open>k\<close>, \<open>k + 1\<close>, ...: \<^verbatim>\<open>for (var k in a)\<close>
  visits the integer keys of \<^verbatim>\<open>contours\<close> in ascending order.
\<close>

fun contourList_levels :: "bounds \<Rightarrow> nat \<Rightarrow> ContourBuilder list \<Rightarrow> error + polyline list" where
  "contourList_levels bd k [] = Inr []"
| "contourList_levels bd k (cb # cbs) =
     (case contourList_level bd k cb of
        Inl e \<Rightarrow> Inl e
      | Inr r \<Rightarrow>
          (case contourList_levels bd (Suc k) cbs of
             Inl e \<Rightarrow> Inl e
           | Inr rs \<Rightarrow> Inr (r @ rs)))"

text \<open>\<^verbatim>\<open>contourList\<close>, ending with \<^verbatim>\<open>l.sort(function(a, b) { return a.k - b.k })\<close>.\<close>

definition contourList :: "bounds \<Rightarrow> ContourBuilder list \<Rightarrow> error + polyline list" where
  "contourList bd contours =
     (case contourList_levels bd 0 contours of
        Inl e \<Rightarrow> Inl e
      | Inr l \<Rightarrow> sort_cmp (\<lambda>a b. Inr (of_nat (pl_k a) - of_nat (pl_k b))) l)"

subsection \<open>The layout pass\<close>

text \<open>
  \<^verbatim>\<open>Triangulate\<close> and the triangles' \<^verbatim>\<open>intersectAt\<close> are not part of the sources:
  the triangles are a list of an arbitrary type, and \<open>intersectAt t l\<close> is the segment
  of triangle \<open>t\<close> at level \<open>l\<close>, \<open>None\<close> when the test
  \<^verbatim>\<open>points && points.length && points[0] && points[1]\<close> fails. The bounds are
  \<^verbatim>\<open>pv.min\<close> and \<^verbatim>\<open>pv.max\<close> of the grid's coordinates.
\<close>

definition scan_triangles ::
  "('t \<Rightarrow> rat \<Rightarrow> (point \<times> point) option) \<Rightarrow> 't list \<Rightarrow> rat \<Rightarrow> ContourBuilder" where
  "scan_triangles intersectAt triangles l =
     foldl (\<lambda>cb t. case intersectAt t l of None \<Rightarrow> cb | Some (p0, p1) \<Rightarrow> addSegment p0 p1 cb)
       (new_ContourBuilder l) triangles"

definition buildImplied ::
  "('t \<Rightarrow> rat \<Rightarrow> (point \<times> point) option) \<Rightarrow> bounds \<Rightarrow> rat list \<Rightarrow> 't list
     \<Rightarrow> error + polyline list" where
  "buildImplied intersectAt bd levels triangles =
     contourList bd (map (scan_triangles intersectAt triangles) levels)"

subsection \<open>Notions used by the properties\<close>

text \<open>
  An endpoint \<open>q\<close> matches a chain when it is coincident with the point of the chain's
  head node or of its tail node; \<open>first_match\<close> is the position of the first chain, in
  the order of the chain list, that \<open>q\<close> matches.
\<close>

definition matches :: "point \<Rightarrow> chain \<Rightarrow> bool" where
  "matches q c = (pointsEqual q (head c) \<or> pointsEqual q (tail c))"

fun first_match :: "point \<Rightarrow> chain list \<Rightarrow> nat option" where
  "first_match q [] = None"
| "first_match q (c # cs) = (if matches q c then Some 0 else map_option Suc (first_match q cs))"

text \<open>
  The unordered pairs of end points of the open chains of a builder, as a multiset.
\<close>

definition open_ends :: "ContourBuilder \<Rightarrow> point set multiset" where
  "open_ends cb = image_mset (\<lambda>c. {head c, tail c}) (filter_mset (\<lambda>c. \<not> closed_flag c) (mset (cb_s cb)))"

text \<open>
  The links of a walk are the unordered pairs of consecutive points, as a multiset. A
  closed loop is identified by the links of its walk, which starts with the copy of the
  tail point: for a loop through different points the links fix the cyclic order of the
  points up to rotation and direction.
\<close>

fun links :: "point list \<Rightarrow> point set multiset" where
  "links (u # v # r) = add_mset {u, v} (links (v # r))"
| "links [u] = {#}"
| "links [] = {#}"

definition chain_links :: "chain \<Rightarrow> point set multiset" where
  "chain_links c = links (points_of c)"

definition closed_loops :: "ContourBuilder \<Rightarrow> point set multiset multiset" where
  "closed_loops cb = image_mset chain_links (filter_mset closed_flag (mset (cb_s cb)))"

text \<open>
  A list of segments is simple when no segment joins a point to itself, coincident end
  points are equal, and every point is an end point of at most two segments.
\<close>

definition simple_segments :: "(point \<times> point) list \<Rightarrow> bool" where
  "simple_segments segs \<longleftrightarrow>
     (\<forall>(a, b) \<in> set segs. a \<noteq> b)
     \<and> (\<forall>s \<in> set segs. \<forall>t \<in> set segs. \<forall>p \<in> {fst s, snd s}. \<forall>q \<in> {fst t, snd t}.
          pointsEqual p q \<longrightarrow> p = q)
     \<and> (\<forall>s \<in> set segs. \<forall>q \<in> {fst s, snd s}.
          length (filter (\<lambda>(a, b). a = q \<or> b = q) segs) \<le> 2)"

text \<open>
  Notions of the proof of order insensitivity. The vertices of a chain are the points of
  its walk, without the copy of the tail point at the head of a closed chain; \<open>deg E q\<close>
  counts the links of \<open>E\<close> at the point \<open>q\<close>. The invariant \<open>Inv M E\<close> of a multiset
  \<open>M\<close> of chains: the links of the chains are the links \<open>E\<close> of the segments added so
  far, no point is a vertex twice, and a closed chain has the same point at head and
  tail.
\<close>

definition verts:: "chain \<Rightarrow> point list" where
  "verts c = (if closed_flag c then mid c @ [tail c] else points_of c)"

definition deg :: "point set multiset \<Rightarrow> point \<Rightarrow> nat" where
  "deg E q = size (filter_mset (\<lambda>e. q \<in> e) E)"

definition all_links :: "chain multiset \<Rightarrow> point set multiset" where
  "all_links M = (\<Sum>c\<in>#M. chain_links c)"

definition all_verts :: "chain multiset \<Rightarrow> point multiset" where
  "all_verts M = (\<Sum>c\<in>#M. mset (verts c))"

definition Inv :: "chain multiset \<Rightarrow> point set multiset \<Rightarrow> bool" where
  "Inv M E \<longleftrightarrow> all_links M = E \<and> (\<forall>q. count (all_verts M) q \<le> 1)
     \<and> (\<forall>c\<in>#M. closed_flag c \<longrightarrow> head c = tail c \<and> mid c \<noteq> [])"

definition shape :: "chain \<Rightarrow> bool" where
  "shape c \<longleftrightarrow> (closed_flag c \<longrightarrow> head c = tail c \<and> mid c \<noteq> [])"

definition exact :: "point set multiset \<Rightarrow> point \<Rightarrow> bool" where
  "exact E q \<longleftrightarrow> (\<forall>r \<in> \<Union>(set_mset E). pointsEqual q r \<longrightarrow> q = r)"

definition seg_links :: "(point \<times> point) list \<Rightarrow> point set multiset" where
  "seg_links segs = image_mset (\<lambda>(a, b). {a, b}) (mset segs)"

definition summary :: "chain \<Rightarrow> bool \<times> point set \<times> point set multiset" where
  "summary c = (closed_flag c, if closed_flag c then {} else {head c, tail c}, chain_links c)"

text \<open>Notation for the concrete inputs of the examples.\<close>

text \<open>
  The closing loop in the words of the specification. The edge index of a point is the
  first component of its perimeter code, and the codes are ordered by edge index, then
  by coordinate.
\<close>

definition edge_index :: "bounds \<Rightarrow> point \<Rightarrow> int" where
  "edge_index bd p = (case code bd [p] False of Inr c \<Rightarrow> fst c | Inl e \<Rightarrow> 0)"

definition code_le :: "bounds \<Rightarrow> point \<Rightarrow> point \<Rightarrow> bool" where
  "code_le bd p q =
     (case code bd [p] False of
        Inl e \<Rightarrow> False
      | Inr c \<Rightarrow>
          (case code bd [q] False of
             Inl e \<Rightarrow> False
           | Inr d \<Rightarrow> fst c < fst d \<or> (fst c = fst d \<and> snd c \<le> snd d)))"

text \<open>
  The corners between an exit point \<open>p\<close> with edge index \<open>c\<close> and an entry point \<open>q\<close>
  with edge index \<open>c0\<close>: 4 is added to \<open>c0\<close> when it is smaller than \<open>c\<close>, and there
  is one corner for every edge index \<open>m\<close> above \<open>c\<close> up to \<open>c0\<close>, in ascending order;
  the corner for \<open>m\<close> has \<open>x = minx\<close> when \<open>m\<close> modulo 4 is 0 or 1 and \<open>x = maxx\<close>
  otherwise, and \<open>y = miny\<close> when \<open>m\<close> modulo 4 is 3 or 0 and \<open>y = maxy\<close> otherwise.
\<close>

definition corners_between :: "bounds \<Rightarrow> point \<Rightarrow> point \<Rightarrow> point list" where
  "corners_between bd p q =
     (let c = edge_index bd p; c0 = edge_index bd q in
      map (\<lambda>m. \<lparr>p_x = (if m smod 4 = 0 \<or> m smod 4 = 1 then minx bd else maxx bd),
                 p_y = (if m smod 4 = 3 \<or> m smod 4 = 0 then miny bd else maxy bd)\<rparr>)
        [c + 1..(if c0 < c then c0 + 4 else c0)])"

text \<open>
  Arrays of points joined in list order, the last point of each connected to the first
  point of the next through the corners between them; and the closed-up array, in which
  the last point of the last array is put in front and connected to the first point of
  the first array in the same way.
\<close>

fun joined :: "bounds \<Rightarrow> point list \<Rightarrow> point list list \<Rightarrow> point list" where
  "joined bd e [] = e"
| "joined bd e (f # fs) = e @ corners_between bd (last e) (hd f) @ joined bd f fs"

definition closed_up :: "bounds \<Rightarrow> point list list \<Rightarrow> point list" where
  "closed_up bd es =
     [last (last es)] @ corners_between bd (last (last es)) (hd (hd es))
     @ joined bd (hd es) (tl es)"

abbreviation pt :: "rat \<Rightarrow> rat \<Rightarrow> point" where
  "pt u v \<equiv> \<lparr>p_x = u, p_y = v\<rparr>"

abbreviation open2 :: "point \<Rightarrow> point \<Rightarrow> chain" where
  "open2 u v \<equiv> \<lparr>head = u, mid = [], tail = v, closed_flag = False\<rparr>"

abbreviation bd4 :: bounds where
  "bd4 \<equiv> \<lparr>minx = 0, maxx = 4, miny = 0, maxy = 4\<rparr>"

subsection \<open>The linked records, as the source has them\<close>

text \<open>
  The chain lists above abstract from the pointers of the source. This part keeps
  them: every object of \<^verbatim>\<open>addSegment\<close> lives in a store at an address, a node
  \<^verbatim>\<open>{p, prev, next}\<close> in \<open>ps_nodes\<close> and a sequence record
  \<^verbatim>\<open>{head, tail, next, prev, closed}\<close> in \<open>ps_seqs\<close>; \<^verbatim>\<open>null\<close> is \<open>None\<close>.
  \<open>ps_new\<close> is the next unused address, so an object literal takes the address
  \<open>ps_new\<close> and advances it. The fields \<^verbatim>\<open>level\<close>, \<^verbatim>\<open>s\<close> and \<^verbatim>\<open>count\<close> of the
  builder are \<open>ps_level\<close>, \<open>ps_s\<close> and \<open>ps_count\<close>.

  Every operation returns an option: \<open>None\<close> stands for a property read on
  \<^verbatim>\<open>null\<close> (a \<^verbatim>\<open>TypeError\<close> in JavaScript) or for a loop that does not end.
\<close>

type_synonym addr = nat

record node =
  n_p :: point
  n_prev :: "addr option"
  n_next :: "addr option"

record seq =
  s_head :: addr
  s_tail :: addr
  s_next :: "addr option"
  s_prev :: "addr option"
  s_closed :: bool

record pstore =
  ps_level :: rat
  ps_s :: "addr option"
  ps_count :: int
  ps_nodes :: "addr \<Rightarrow> node option"
  ps_seqs :: "addr \<Rightarrow> seq option"
  ps_new :: addr

text \<open>\<^verbatim>\<open>new ContourBuilder(level)\<close>.\<close>

definition new_pstore :: "rat \<Rightarrow> pstore" where
  "new_pstore l = \<lparr>ps_level = l, ps_s = None, ps_count = 0, ps_nodes = Map.empty,
     ps_seqs = Map.empty, ps_new = 0\<rparr>"

text \<open>
  The loop of \<^verbatim>\<open>reverseList\<close>:
  \<^verbatim>\<open>while (pp) { temp = pp.next; pp.next = pp.prev; pp.prev = temp; pp = temp; }\<close>,
  and then the swap of \<^verbatim>\<open>list.head\<close> and \<^verbatim>\<open>list.tail\<close>.
\<close>

partial_function (option) reverse_loop ::
  "(addr \<Rightarrow> node option) \<Rightarrow> addr option \<Rightarrow> (addr \<Rightarrow> node option) option" where
  "reverse_loop ns pp =
     (case pp of
        None \<Rightarrow> Some ns
      | Some a \<Rightarrow>
          (case ns a of
             None \<Rightarrow> None
           | Some n \<Rightarrow>
               reverse_loop (ns(a \<mapsto> n\<lparr>n_next := n_prev n, n_prev := n_next n\<rparr>)) (n_next n)))"

definition reverseList_p :: "addr \<Rightarrow> pstore \<Rightarrow> pstore option" where
  "reverseList_p l st =
     do {
       sq \<leftarrow> ps_seqs st l;
       ns \<leftarrow> reverse_loop (ps_nodes st) (Some (s_head sq));
       Some (st\<lparr>ps_nodes := ns,
                ps_seqs := (ps_seqs st)(l \<mapsto> sq\<lparr>s_head := s_tail sq, s_tail := s_head sq\<rparr>)\<rparr>)
     }"

text \<open>
  \<^verbatim>\<open>remove_seq\<close>: \<^verbatim>\<open>if (list.prev) list.prev.next = list.next; else this.s = list.next;\<close>
  then \<^verbatim>\<open>if (list.next) list.next.prev = list.prev;\<close> and \<^verbatim>\<open>--this.count\<close>.
\<close>

definition remove_seq_p :: "addr \<Rightarrow> pstore \<Rightarrow> pstore option" where
  "remove_seq_p l st =
     do {
       sq \<leftarrow> ps_seqs st l;
       st1 \<leftarrow> (case s_prev sq of
                 Some pv \<Rightarrow>
                   do {
                     psq \<leftarrow> ps_seqs st pv;
                     Some (st\<lparr>ps_seqs := (ps_seqs st)(pv \<mapsto> psq\<lparr>s_next := s_next sq\<rparr>)\<rparr>)
                   }
               | None \<Rightarrow> Some (st\<lparr>ps_s := s_next sq\<rparr>));
       st2 \<leftarrow> (case s_next sq of
                 Some nx \<Rightarrow>
                   do {
                     nsq \<leftarrow> ps_seqs st1 nx;
                     Some (st1\<lparr>ps_seqs := (ps_seqs st1)(nx \<mapsto> nsq\<lparr>s_prev := s_prev sq\<rparr>)\<rparr>)
                   }
               | None \<Rightarrow> Some st1);
       Some (st2\<lparr>ps_count := ps_count st2 - 1\<rparr>)
     }"

text \<open>
  The variables of the scan, with addresses of records in place of positions, and the
  two \<^verbatim>\<open>if\<close> blocks of the loop body. \<^verbatim>\<open>ss.tail.p\<close> is read only when the head
  point does not match.
\<close>

record pscan =
  p_ss :: "addr option"
  p_ma :: "addr option"
  p_mb :: "addr option"
  p_prependA :: bool
  p_prependB :: bool

definition pscan_init :: pscan where
  "pscan_init = \<lparr>p_ss = None, p_ma = None, p_mb = None, p_prependA = False, p_prependB = False\<rparr>"

definition match_a_p :: "point \<Rightarrow> pstore \<Rightarrow> addr \<Rightarrow> seq \<Rightarrow> pscan \<Rightarrow> pscan option" where
  "match_a_p a st l sq m =
     (if p_ma m = None then
        do {
          h \<leftarrow> ps_nodes st (s_head sq);
          if pointsEqual a (n_p h) then Some (m\<lparr>p_ma := Some l, p_prependA := True\<rparr>)
          else do {
            t \<leftarrow> ps_nodes st (s_tail sq);
            if pointsEqual a (n_p t) then Some (m\<lparr>p_ma := Some l\<rparr>) else Some m
          }
        }
      else Some m)"

definition match_b_p :: "point \<Rightarrow> pstore \<Rightarrow> addr \<Rightarrow> seq \<Rightarrow> pscan \<Rightarrow> pscan option" where
  "match_b_p b st l sq m =
     (if p_mb m = None then
        do {
          h \<leftarrow> ps_nodes st (s_head sq);
          if pointsEqual b (n_p h) then Some (m\<lparr>p_mb := Some l, p_prependB := True\<rparr>)
          else do {
            t \<leftarrow> ps_nodes st (s_tail sq);
            if pointsEqual b (n_p t) then Some (m\<lparr>p_mb := Some l\<rparr>) else Some m
          }
        }
      else Some m)"

text \<open>
  \<^verbatim>\<open>while (ss) { ...; if (mb != null && ma != null) break; else ss = ss.next; }\<close>.
\<close>

partial_function (option) scan_loop_p ::
  "point \<Rightarrow> point \<Rightarrow> pstore \<Rightarrow> addr option \<Rightarrow> pscan \<Rightarrow> pscan option" where
  "scan_loop_p a b st sp m =
     (case sp of
        None \<Rightarrow> Some (m\<lparr>p_ss := None\<rparr>)
      | Some l \<Rightarrow>
          do {
            sq \<leftarrow> ps_seqs st l;
            m1 \<leftarrow> match_a_p a st l sq (m\<lparr>p_ss := Some l\<rparr>);
            m2 \<leftarrow> match_b_p b st l sq m1;
            if p_mb m2 \<noteq> None \<and> p_ma m2 \<noteq> None then Some m2
            else scan_loop_p a b st (s_next sq) m2
          })"

text \<open>
  Case 0: the nodes \<^verbatim>\<open>aa\<close> and \<^verbatim>\<open>bb\<close> and the record \<^verbatim>\<open>ma\<close> are created, and the
  record is pushed in front: \<^verbatim>\<open>if (this.s) this.s.prev = ma; this.s = ma; ++this.count\<close>.
\<close>

definition new_seq_p :: "point \<Rightarrow> point \<Rightarrow> pstore \<Rightarrow> pstore option" where
  "new_seq_p a b st =
     (let aa = ps_new st; bb = ps_new st + 1; l = ps_new st + 2;
          ns = (ps_nodes st)(aa \<mapsto> \<lparr>n_p = a, n_prev = None, n_next = Some bb\<rparr>,
                             bb \<mapsto> \<lparr>n_p = b, n_prev = Some aa, n_next = None\<rparr>);
          sqs = (ps_seqs st)(l \<mapsto> \<lparr>s_head = aa, s_tail = bb, s_next = ps_s st, s_prev = None,
                                   s_closed = False\<rparr>)
      in do {
        sqs1 \<leftarrow> (case ps_s st of
                  None \<Rightarrow> Some sqs
                | Some f \<Rightarrow> do { fsq \<leftarrow> sqs f; Some (sqs(f \<mapsto> fsq\<lparr>s_prev := Some l\<rparr>)) });
        Some (st\<lparr>ps_nodes := ns, ps_seqs := sqs1, ps_s := Some l, ps_count := ps_count st + 1,
                 ps_new := ps_new st + 3\<rparr>)
      })"

text \<open>
  Cases 1 and 2: a node \<^verbatim>\<open>pp\<close> for the point \<open>q\<close> is linked before the head
  (\<^verbatim>\<open>pp.next = l.head; pp.prev = null; l.head.prev = pp; l.head = pp\<close>) or after the tail
  (\<^verbatim>\<open>pp.next = null; pp.prev = l.tail; l.tail.next = pp; l.tail = pp\<close>).
\<close>

definition extend_p :: "bool \<Rightarrow> point \<Rightarrow> addr \<Rightarrow> pstore \<Rightarrow> pstore option" where
  "extend_p pre q l st =
     (let pp = ps_new st in
      do {
        sq \<leftarrow> ps_seqs st l;
        if pre then
          do {
            let ns = (ps_nodes st)(pp \<mapsto> \<lparr>n_p = q, n_prev = None, n_next = Some (s_head sq)\<rparr>);
            h \<leftarrow> ns (s_head sq);
            Some (st\<lparr>ps_nodes := ns(s_head sq \<mapsto> h\<lparr>n_prev := Some pp\<rparr>),
                     ps_seqs := (ps_seqs st)(l \<mapsto> sq\<lparr>s_head := pp\<rparr>),
                     ps_new := ps_new st + 1\<rparr>)
          }
        else
          do {
            let ns = (ps_nodes st)(pp \<mapsto> \<lparr>n_p = q, n_prev = Some (s_tail sq), n_next = None\<rparr>);
            t \<leftarrow> ns (s_tail sq);
            Some (st\<lparr>ps_nodes := ns(s_tail sq \<mapsto> t\<lparr>n_next := Some pp\<rparr>),
                     ps_seqs := (ps_seqs st)(l \<mapsto> sq\<lparr>s_tail := pp\<rparr>),
                     ps_new := ps_new st + 1\<rparr>)
          }
      })"

text \<open>
  Case 3 with \<^verbatim>\<open>ma === mb\<close>: \<^verbatim>\<open>pp = {p: ma.tail.p, next: ma.head, prev: null}\<close>,
  \<^verbatim>\<open>ma.head.prev = pp; ma.head = pp; ma.closed = true\<close>.
\<close>

definition close_p :: "addr \<Rightarrow> pstore \<Rightarrow> pstore option" where
  "close_p l st =
     (let pp = ps_new st in
      do {
        sq \<leftarrow> ps_seqs st l;
        t \<leftarrow> ps_nodes st (s_tail sq);
        let ns = (ps_nodes st)(pp \<mapsto> \<lparr>n_p = n_p t, n_prev = None, n_next = Some (s_head sq)\<rparr>);
        h \<leftarrow> ns (s_head sq);
        Some (st\<lparr>ps_nodes := ns(s_head sq \<mapsto> h\<lparr>n_prev := Some pp\<rparr>),
                 ps_seqs := (ps_seqs st)(l \<mapsto> sq\<lparr>s_head := pp, s_closed := True\<rparr>),
                 ps_new := ps_new st + 1\<rparr>)
      })"

text \<open>\<^verbatim>\<open>u.tail.next = v.head; v.head.prev = u.tail; u.tail = v.tail\<close>.\<close>

definition splice_p :: "addr \<Rightarrow> addr \<Rightarrow> pstore \<Rightarrow> pstore option" where
  "splice_p u v st =
     do {
       su \<leftarrow> ps_seqs st u;
       sv \<leftarrow> ps_seqs st v;
       t \<leftarrow> ps_nodes st (s_tail su);
       let ns1 = (ps_nodes st)(s_tail su \<mapsto> t\<lparr>n_next := Some (s_head sv)\<rparr>);
       h \<leftarrow> ns1 (s_head sv);
       let ns2 = ns1(s_head sv \<mapsto> h\<lparr>n_prev := Some (s_tail su)\<rparr>);
       Some (st\<lparr>ps_nodes := ns2, ps_seqs := (ps_seqs st)(u \<mapsto> su\<lparr>s_tail := s_tail sv\<rparr>)\<rparr>)
     }"

text \<open>
  The inner switch of case 3 on \<^verbatim>\<open>(prependA ? 1 : 0) | (prependB ? 2 : 0)\<close>; cases 0
  and 3 reverse \<^verbatim>\<open>ma\<close> and fall through to cases 1 and 2.
\<close>

definition merge_p :: "bool \<Rightarrow> bool \<Rightarrow> addr \<Rightarrow> addr \<Rightarrow> pstore \<Rightarrow> pstore option" where
  "merge_p pA pB lma lmb st =
     (if \<not> pA \<and> \<not> pB then
        do { st1 \<leftarrow> reverseList_p lma st; st2 \<leftarrow> splice_p lmb lma st1; remove_seq_p lma st2 }
      else if pA \<and> \<not> pB then
        do { st2 \<leftarrow> splice_p lmb lma st; remove_seq_p lma st2 }
      else if pA \<and> pB then
        do { st1 \<leftarrow> reverseList_p lma st; st2 \<leftarrow> splice_p lma lmb st1; remove_seq_p lmb st2 }
      else
        do { st2 \<leftarrow> splice_p lma lmb st; remove_seq_p lmb st2 })"

definition addSegment_p :: "point \<Rightarrow> point \<Rightarrow> pstore \<Rightarrow> pstore option" where
  "addSegment_p a b st =
     do {
       m \<leftarrow> scan_loop_p a b st (ps_s st) pscan_init;
       case (p_ma m, p_mb m) of
         (None, None) \<Rightarrow> new_seq_p a b st
       | (Some lma, None) \<Rightarrow> extend_p (p_prependA m) b lma st
       | (None, Some lmb) \<Rightarrow> extend_p (p_prependB m) a lmb st
       | (Some lma, Some lmb) \<Rightarrow>
           if lma = lmb then close_p lma st
           else merge_p (p_prependA m) (p_prependB m) lma lmb st
     }"

fun addSegments_p :: "(point \<times> point) list \<Rightarrow> pstore \<Rightarrow> pstore option" where
  "addSegments_p [] st = Some st"
| "addSegments_p ((a, b) # segs) st = do { st1 \<leftarrow> addSegment_p a b st; addSegments_p segs st1 }"

text \<open>
  The two walks of \<^verbatim>\<open>contourList\<close>: over the nodes of a record,
  \<^verbatim>\<open>h = s.head; while (h && h.p) { l2.push(h.p); h = h.next; }\<close>, and over the
  records, \<^verbatim>\<open>while (s) { ...; s = s.next; }\<close>, which yields the points of every record
  and its \<^verbatim>\<open>closed\<close> field.
\<close>

partial_function (option) walk_nodes ::
  "(addr \<Rightarrow> node option) \<Rightarrow> addr option \<Rightarrow> point list option" where
  "walk_nodes ns h =
     (case h of
        None \<Rightarrow> Some []
      | Some a \<Rightarrow> do { n \<leftarrow> ns a; r \<leftarrow> walk_nodes ns (n_next n); Some (n_p n # r) })"

partial_function (option) walk_seqs :: "pstore \<Rightarrow> addr option \<Rightarrow> (point list \<times> bool) list option" where
  "walk_seqs st sp =
     (case sp of
        None \<Rightarrow> Some []
      | Some l \<Rightarrow>
          do {
            sq \<leftarrow> ps_seqs st l;
            l2 \<leftarrow> walk_nodes (ps_nodes st) (Some (s_head sq));
            r \<leftarrow> walk_seqs st (s_next sq);
            Some ((l2, s_closed sq) # r)
          })"

subsection \<open>How a store represents a chain list\<close>

text \<open>
  A doubly linked segment: the addresses \<open>as\<close> are linked in this order by the field
  \<open>nx\<close> and in the opposite order by the field \<open>pv\<close>; \<open>p0\<close> is the \<open>pv\<close> field of
  the first and \<open>pn\<close> the \<open>nx\<close> field of the last address. A doubly linked list is a
  segment between \<open>None\<close> and \<open>None\<close> without a repeated address.
\<close>

definition first :: "addr list \<Rightarrow> addr option" where
  "first as = (case as of [] \<Rightarrow> None | a # _ \<Rightarrow> Some a)"

definition firstp :: "addr list \<Rightarrow> addr option \<Rightarrow> addr option" where
  "firstp as pn = (case as of [] \<Rightarrow> pn | b # _ \<Rightarrow> Some b)"

definition lastp :: "addr option \<Rightarrow> addr list \<Rightarrow> addr option" where
  "lastp p0 as = (if as = [] then p0 else Some (last as))"

fun dseg ::
  "(addr \<Rightarrow> addr option) \<Rightarrow> (addr \<Rightarrow> addr option) \<Rightarrow> addr option \<Rightarrow> addr list
     \<Rightarrow> addr option \<Rightarrow> bool" where
  "dseg nx pv p0 [] pn = True"
| "dseg nx pv p0 (a # as) pn =
     (pv a = p0 \<and> nx a = (case as of [] \<Rightarrow> pn | b # _ \<Rightarrow> Some b) \<and> dseg nx pv (Some a) as pn)"

definition dll :: "(addr \<Rightarrow> addr option) \<Rightarrow> (addr \<Rightarrow> addr option) \<Rightarrow> addr list \<Rightarrow> bool" where
  "dll nx pv as \<longleftrightarrow> distinct as \<and> dseg nx pv None as None"

text \<open>Following the \<open>nx\<close> field from \<open>p\<close> visits the addresses \<open>as\<close> and ends at null.\<close>

fun path :: "(addr \<Rightarrow> addr option) \<Rightarrow> addr option \<Rightarrow> addr list \<Rightarrow> bool" where
  "path nx p [] \<longleftrightarrow> p = None"
| "path nx p (a # as) \<longleftrightarrow> p = Some a \<and> path nx (nx a) as"

text \<open>The link fields of the nodes and of the records, as functions on addresses.\<close>

definition nxt :: "(addr \<Rightarrow> node option) \<Rightarrow> addr \<Rightarrow> addr option" where
  "nxt ns a = (case ns a of None \<Rightarrow> None | Some n \<Rightarrow> n_next n)"

definition prv :: "(addr \<Rightarrow> node option) \<Rightarrow> addr \<Rightarrow> addr option" where
  "prv ns a = (case ns a of None \<Rightarrow> None | Some n \<Rightarrow> n_prev n)"

definition snxt :: "(addr \<Rightarrow> seq option) \<Rightarrow> addr \<Rightarrow> addr option" where
  "snxt sqs a = (case sqs a of None \<Rightarrow> None | Some s \<Rightarrow> s_next s)"

definition sprv :: "(addr \<Rightarrow> seq option) \<Rightarrow> addr \<Rightarrow> addr option" where
  "sprv sqs a = (case sqs a of None \<Rightarrow> None | Some s \<Rightarrow> s_prev s)"

definition swap_links :: "node \<Rightarrow> node" where
  "swap_links n = n\<lparr>n_next := n_prev n, n_prev := n_next n\<rparr>"

text \<open>
  The record \<open>sq\<close> with the nodes at the addresses \<open>as\<close>, in \<^verbatim>\<open>next\<close> order,
  represents the chain \<open>c\<close>: the nodes are doubly linked, \<^verbatim>\<open>head\<close> and \<^verbatim>\<open>tail\<close>
  are the first and the last of them, their points are the points of the chain, and the
  \<^verbatim>\<open>closed\<close> fields agree.
\<close>

definition chain_rep :: "(addr \<Rightarrow> node option) \<Rightarrow> seq \<Rightarrow> addr list \<Rightarrow> chain \<Rightarrow> bool" where
  "chain_rep ns sq as c \<longleftrightarrow>
     dll (nxt ns) (prv ns) as \<and> set as \<subseteq> dom ns \<and> as \<noteq> []
     \<and> s_head sq = hd as \<and> s_tail sq = last as
     \<and> map (\<lambda>a. n_p (the (ns a))) as = points_of c \<and> s_closed sq = closed_flag c"

definition rep_at :: "pstore \<Rightarrow> addr \<Rightarrow> addr list \<Rightarrow> chain \<Rightarrow> bool" where
  "rep_at st l as c \<longleftrightarrow> (\<exists>sq. ps_seqs st l = Some sq \<and> chain_rep (ps_nodes st) sq as c)"

text \<open>
  The store \<open>st\<close> represents the builder \<open>cb\<close>: the records at the addresses \<open>ls\<close> are
  doubly linked from \<^verbatim>\<open>this.s\<close> in the order of the chain list, the record at
  \<open>ls ! i\<close> with the nodes \<open>ass ! i\<close> represents the chain at position \<open>i\<close>, no node
  belongs to two records, and every address in use is below \<open>ps_new\<close>.
\<close>

definition abstracts_by :: "addr list \<Rightarrow> addr list list \<Rightarrow> pstore \<Rightarrow> ContourBuilder \<Rightarrow> bool" where
  "abstracts_by ls ass st cb \<longleftrightarrow>
     dll (snxt (ps_seqs st)) (sprv (ps_seqs st)) ls \<and> set ls \<subseteq> dom (ps_seqs st)
     \<and> ps_s st = first ls
     \<and> length ass = length ls \<and> length (cb_s cb) = length ls
     \<and> (\<forall>i<length ls. rep_at st (ls ! i) (ass ! i) (cb_s cb ! i))
     \<and> (\<forall>i<length ls. \<forall>j<length ls. i \<noteq> j \<longrightarrow> set (ass ! i) \<inter> set (ass ! j) = {})
     \<and> (\<forall>a \<in> set ls \<union> set (concat ass). a < ps_new st)
     \<and> ps_count st = cb_count cb \<and> ps_level st = cb_level cb"

definition abstracts :: "pstore \<Rightarrow> ContourBuilder \<Rightarrow> bool" where
  "abstracts st cb \<longleftrightarrow> (\<exists>ls ass. abstracts_by ls ass st cb)"

text \<open>
  Between the splice and the \<^verbatim>\<open>remove_seq\<close> of a merge the record at position \<open>j\<close>
  is still linked although its nodes already belong to the other record; the relation
  then holds for every position but \<open>j\<close>.
\<close>

definition abstracts_except ::
  "nat \<Rightarrow> addr list \<Rightarrow> addr list list \<Rightarrow> pstore \<Rightarrow> ContourBuilder \<Rightarrow> bool" where
  "abstracts_except j ls ass st cb \<longleftrightarrow>
     dll (snxt (ps_seqs st)) (sprv (ps_seqs st)) ls \<and> set ls \<subseteq> dom (ps_seqs st)
     \<and> ps_s st = first ls
     \<and> length ass = length ls \<and> length (cb_s cb) = length ls
     \<and> (\<forall>i<length ls. i \<noteq> j \<longrightarrow> rep_at st (ls ! i) (ass ! i) (cb_s cb ! i))
     \<and> (\<forall>i<length ls. \<forall>k<length ls. i \<noteq> j \<longrightarrow> k \<noteq> j \<longrightarrow> i \<noteq> k
          \<longrightarrow> set (ass ! i) \<inter> set (ass ! k) = {})
     \<and> (\<forall>a \<in> set ls. a < ps_new st)
     \<and> (\<forall>i<length ls. i \<noteq> j \<longrightarrow> (\<forall>a \<in> set (ass ! i). a < ps_new st))
     \<and> ps_count st = cb_count cb \<and> ps_level st = cb_level cb"

text \<open>
  The variables of the two scans correspond when each address is the address of the
  record at the position the list scan holds; \<open>view\<close> is what the scan reads of a
  record, the points of its head and tail nodes.
\<close>

definition scan_rel :: "addr list \<Rightarrow> pscan \<Rightarrow> scan_state \<Rightarrow> bool" where
  "scan_rel ls m sa \<longleftrightarrow>
     p_ss m = map_option (\<lambda>i. ls ! i) (ss sa) \<and> p_ma m = map_option (\<lambda>i. ls ! i) (ma sa)
     \<and> p_mb m = map_option (\<lambda>i. ls ! i) (mb sa)
     \<and> p_prependA m = prependA sa \<and> p_prependB m = prependB sa"

definition view :: "pstore \<Rightarrow> addr \<Rightarrow> chain \<Rightarrow> bool" where
  "view st l c \<longleftrightarrow>
     (\<exists>sq h t. ps_seqs st l = Some sq \<and> ps_nodes st (s_head sq) = Some h \<and> n_p h = head c
        \<and> ps_nodes st (s_tail sq) = Some t \<and> n_p t = tail c)"

section \<open>Properties\<close>

lemma first_match_None: "first_match q cs = None \<longleftrightarrow> (\<forall>c \<in> set cs. \<not> matches q c)"
  by (induction cs) auto

lemma first_match_Some:
  "first_match q cs = Some n \<longleftrightarrow>
     n < length cs \<and> matches q (cs ! n) \<and> (\<forall>j<n. \<not> matches q (cs ! j))"
proof (induction cs arbitrary: n)
  case Nil
  then show ?case by simp
next
  case (Cons c cs)
  show ?case
  proof (cases "matches q c")
    case True
    then show ?thesis by (cases n) auto
  next
    case False
    show ?thesis
    proof (cases n)
      case 0
      with False show ?thesis by auto
    next
      case (Suc m)
      with False Cons.IH[of m] show ?thesis
        by (auto simp: less_Suc_eq_0_disj)
    qed
  qed
qed

lemma plus_Suc_fun: "(+) (Suc i) = (\<lambda>x. Suc (i + x))"
  by auto

lemma scan_loop_ma:
  "ma (scan_loop a b cs i st) =
     (case ma st of Some m \<Rightarrow> Some m | None \<Rightarrow> map_option (\<lambda>n. i + n) (first_match a cs))"
proof (induction cs arbitrary: i st)
  case Nil
  then show ?case by (simp split: option.splits)
next
  case (Cons c cs)
  show ?case
    by (auto simp: Let_def Cons.IH match_a_def match_b_def matches_def option.map_comp comp_def
        plus_Suc_fun split: option.splits)
qed

lemma scan_loop_mb:
  "mb (scan_loop a b cs i st) =
     (case mb st of Some m \<Rightarrow> Some m | None \<Rightarrow> map_option (\<lambda>n. i + n) (first_match b cs))"
proof (induction cs arbitrary: i st)
  case Nil
  then show ?case by (simp split: option.splits)
next
  case (Cons c cs)
  show ?case
    by (auto simp: Let_def Cons.IH match_a_def match_b_def matches_def option.map_comp comp_def
        plus_Suc_fun split: option.splits)
qed

lemma scan_loop_prependA:
  "prependA (scan_loop a b cs i st) =
     (case ma st of Some m \<Rightarrow> prependA st
      | None \<Rightarrow> (case first_match a cs of None \<Rightarrow> prependA st
                  | Some n \<Rightarrow> prependA st \<or> pointsEqual a (head (cs ! n))))"
proof (induction cs arbitrary: i st)
  case Nil
  then show ?case by (simp split: option.splits)
next
  case (Cons c cs)
  show ?case
    by (auto simp: Let_def Cons.IH match_a_def match_b_def matches_def
        split: option.splits)
qed

lemma scan_loop_prependB:
  "prependB (scan_loop a b cs i st) =
     (case mb st of Some m \<Rightarrow> prependB st
      | None \<Rightarrow> (case first_match b cs of None \<Rightarrow> prependB st
                  | Some n \<Rightarrow> prependB st \<or> pointsEqual b (head (cs ! n))))"
proof (induction cs arbitrary: i st)
  case Nil
  then show ?case by (simp split: option.splits)
next
  case (Cons c cs)
  show ?case
    by (auto simp: Let_def Cons.IH match_a_def match_b_def matches_def
        split: option.splits)
qed

lemma scan_loop_ss:
  assumes "ma st = None \<or> mb st = None"
  shows "ss (scan_loop a b cs i st) =
     (case (if ma st = None then first_match a cs else Some 0,
            if mb st = None then first_match b cs else Some 0) of
        (Some m, Some n) \<Rightarrow> Some (i + max m n)
      | _ \<Rightarrow> None)"
  using assms
proof (induction cs arbitrary: i st)
  case Nil
  then show ?case by (auto split: option.splits)
next
  case (Cons c cs)
  let ?st1 = "match_b b i c (match_a a i c (st\<lparr>ss := Some i\<rparr>))"
  show ?case
  proof (cases "mb ?st1 \<noteq> None \<and> ma ?st1 \<noteq> None")
    case True
    with Cons.prems show ?thesis
      by (auto simp: match_a_def match_b_def matches_def split: if_splits option.splits)
  next
    case False
    then have "ma ?st1 = None \<or> mb ?st1 = None" by auto
    from Cons.IH[OF this, of "Suc i"] False Cons.prems show ?thesis
      by (auto simp: match_a_def match_b_def matches_def split: if_splits option.splits)
  qed
qed

lemma plus_0_fun: "(+) (0::nat) = (\<lambda>x. x)"
  by auto

lemma first_match_cases:
  "(case first_match q cs of
      None \<Rightarrow> (\<forall>c \<in> set cs. \<not> matches q c)
    | Some i \<Rightarrow> i < length cs \<and> matches q (cs ! i) \<and> (\<forall>j<i. \<not> matches q (cs ! j)))"
  using first_match_None[of q cs] first_match_Some[of q cs]
  by (cases "first_match q cs") auto

lemma scan_ma: "ma (scan a b cb) = first_match a (cb_s cb)"
  by (simp add: scan_def scan_loop_ma scan_init_def plus_0_fun option.map_ident)

lemma scan_mb: "mb (scan a b cb) = first_match b (cb_s cb)"
  by (simp add: scan_def scan_loop_mb scan_init_def plus_0_fun option.map_ident)

lemma scan_prependA:
  "prependA (scan a b cb) =
     (case first_match a (cb_s cb) of None \<Rightarrow> False | Some n \<Rightarrow> pointsEqual a (head (cb_s cb ! n)))"
  by (simp add: scan_def scan_loop_prependA scan_init_def split: option.splits)

lemma scan_prependB:
  "prependB (scan a b cb) =
     (case first_match b (cb_s cb) of None \<Rightarrow> False | Some n \<Rightarrow> pointsEqual b (head (cb_s cb ! n)))"
  by (simp add: scan_def scan_loop_prependB scan_init_def split: option.splits)

lemma scan_ss:
  "ss (scan a b cb) =
     (case (first_match a (cb_s cb), first_match b (cb_s cb)) of
        (Some m, Some n) \<Rightarrow> Some (max m n) | _ \<Rightarrow> None)"
  by (simp add: scan_def scan_loop_ss scan_init_def split: option.splits)

text \<open>
  C10 (match selection of the scan). For \<open>a\<close>, and in the same way for \<open>b\<close>: the match
  \<open>ma\<close> is the first chain in the order of the chain list whose head or tail point is
  coincident with the endpoint, no earlier chain matches it, and the prepend flag is set
  exactly when the head of that chain is coincident (the head is tested first); without
  such a chain there is no match and the flag stays unset. The loop leaves \<open>ss\<close> at the
  chain where the second of the two matches was found, so it stops there and visits no
  later chain; it runs to the end of the list (\<open>ss\<close> is null) when an endpoint stays
  unmatched.
\<close>

theorem C10_scan:
  "(case ma (scan a b cb) of
      None \<Rightarrow> (\<forall>c \<in> set (cb_s cb). \<not> pointsEqual a (head c) \<and> \<not> pointsEqual a (tail c))
              \<and> \<not> prependA (scan a b cb)
    | Some i \<Rightarrow> i < length (cb_s cb)
              \<and> (pointsEqual a (head (cb_s cb ! i)) \<or> pointsEqual a (tail (cb_s cb ! i)))
              \<and> (\<forall>j<i. \<not> pointsEqual a (head (cb_s cb ! j)) \<and> \<not> pointsEqual a (tail (cb_s cb ! j)))
              \<and> prependA (scan a b cb) = pointsEqual a (head (cb_s cb ! i)))
   \<and> (case mb (scan a b cb) of
      None \<Rightarrow> (\<forall>c \<in> set (cb_s cb). \<not> pointsEqual b (head c) \<and> \<not> pointsEqual b (tail c))
              \<and> \<not> prependB (scan a b cb)
    | Some i \<Rightarrow> i < length (cb_s cb)
              \<and> (pointsEqual b (head (cb_s cb ! i)) \<or> pointsEqual b (tail (cb_s cb ! i)))
              \<and> (\<forall>j<i. \<not> pointsEqual b (head (cb_s cb ! j)) \<and> \<not> pointsEqual b (tail (cb_s cb ! j)))
              \<and> prependB (scan a b cb) = pointsEqual b (head (cb_s cb ! i)))
   \<and> ss (scan a b cb) =
       (case (ma (scan a b cb), mb (scan a b cb)) of
          (Some i, Some j) \<Rightarrow> Some (max i j) | _ \<Rightarrow> None)"
  using first_match_cases[where q=a and cs="cb_s cb"] first_match_cases[where q=b and cs="cb_s cb"]
  by (auto simp: scan_ma scan_mb scan_prependA scan_prependB scan_ss matches_def
      split: option.splits)

lemma first_matchI:
  "i < length cs \<Longrightarrow> matches q (cs ! i) \<Longrightarrow> (\<forall>j<i. \<not> matches q (cs ! j)) \<Longrightarrow> first_match q cs = Some i"
  by (simp add: first_match_Some)

text \<open>
  C3 (closing a chain). When the chain at position \<open>i\<close> is the first chain that
  endpoint \<open>a\<close> matches and also the first chain that endpoint \<open>b\<close> matches,
  \<open>addSegment\<close> replaces it by a closed chain whose walk is the tail point followed by
  the old walk; every other chain, the length of the chain list and the count are
  unchanged. A chain of two points becomes a closed chain of three points.
\<close>

theorem C3_close:
  assumes "i < length (cb_s cb)"
    and "pointsEqual a (head (cb_s cb ! i)) \<or> pointsEqual a (tail (cb_s cb ! i))"
    and "pointsEqual b (head (cb_s cb ! i)) \<or> pointsEqual b (tail (cb_s cb ! i))"
    and "\<forall>j<i. \<not> pointsEqual a (head (cb_s cb ! j)) \<and> \<not> pointsEqual a (tail (cb_s cb ! j))
              \<and> \<not> pointsEqual b (head (cb_s cb ! j)) \<and> \<not> pointsEqual b (tail (cb_s cb ! j))"
  shows "(\<exists>c'. addSegment a b cb = cb\<lparr>cb_s := (cb_s cb)[i := c']\<rparr>
            \<and> points_of c' = tail (cb_s cb ! i) # points_of (cb_s cb ! i)
            \<and> closed_flag c'
            \<and> (if mid (cb_s cb ! i) = [] then length (points_of c') = 3 else length (points_of c') > 3))
         \<and> length (cb_s (addSegment a b cb)) = length (cb_s cb)
         \<and> cb_count (addSegment a b cb) = cb_count cb"
proof -
  have fa: "first_match a (cb_s cb) = Some i"
    using assms by (intro first_matchI) (auto simp: matches_def)
  have fb: "first_match b (cb_s cb) = Some i"
    using assms by (intro first_matchI) (auto simp: matches_def)
  have eq: "addSegment a b cb = cb\<lparr>cb_s := (cb_s cb)[i := close_chain (cb_s cb ! i)]\<rparr>"
    by (simp add: addSegment_def scan_ma scan_mb fa fb Let_def)
  show ?thesis
    unfolding eq
    by (auto simp: close_chain_def points_of_def intro!: exI[of _ "close_chain (cb_s cb ! i)"])
qed

lemma nth_in_remove:
  "n < length xs \<Longrightarrow> n \<noteq> i \<Longrightarrow> xs ! n \<in> set (take i xs @ drop (Suc i) xs)"
proof -
  assume n: "n < length xs" "n \<noteq> i"
  have "xs = take i xs @ drop i xs" by simp
  show ?thesis
  proof (cases "n < i")
    case True
    then have "xs ! n = take i xs ! n" by simp
    moreover have "n < length (take i xs)" using True n by simp
    ultimately show ?thesis by (metis UnI1 nth_mem set_append)
  next
    case False
    with n have "Suc i \<le> n" by simp
    then have "xs ! n = drop (Suc i) xs ! (n - Suc i)" using n by simp
    moreover have "n - Suc i < length (drop (Suc i) xs)" using n \<open>Suc i \<le> n\<close> by simp
    ultimately show ?thesis by (metis UnI2 nth_mem set_append)
  qed
qed

text \<open>
  C7, as amended (closed chains). The scan of \<open>addSegment\<close> does not read the
  \<^verbatim>\<open>closed\<close> flag. A closed chain stays in the chain list, unchanged, under an
  \<open>addSegment\<close> whose endpoints are both not coincident with its head point and its
  tail point.
\<close>

theorem C7_unmatched_unchanged:
  assumes "c \<in> set (cb_s cb)" and "closed_flag c"
    and "\<not> pointsEqual a (head c)" and "\<not> pointsEqual a (tail c)"
    and "\<not> pointsEqual b (head c)" and "\<not> pointsEqual b (tail c)"
  shows "c \<in> set (cb_s (addSegment a b cb))"
proof -
  from assms(1) obtain n where n: "n < length (cb_s cb)" "cb_s cb ! n = c"
    by (auto simp: in_set_conv_nth)
  have nm: "\<not> matches a c" "\<not> matches b c" using assms by (auto simp: matches_def)
  have ne: "first_match a (cb_s cb) \<noteq> Some n" "first_match b (cb_s cb) \<noteq> Some n"
    using nm n by (auto simp: first_match_Some)
  have keep: "c \<in> set ((cb_s cb)[i := v])" if "i \<noteq> n" for i v
    using n that by (metis length_list_update nth_list_update_neq nth_mem)
  have keep2: "c \<in> set (take i ((cb_s cb)[j := v]) @ drop (Suc i) ((cb_s cb)[j := v]))"
    if "i \<noteq> n" "j \<noteq> n" for i j v
    using nth_in_remove[of n "(cb_s cb)[j := v]" i] n that by simp
  have keep3: "c \<in> set (take i ((cb_s cb)[k := w, j := v]) @ drop (Suc i) ((cb_s cb)[k := w, j := v]))"
    if "i \<noteq> n" "j \<noteq> n" "k \<noteq> n" for i j k v w
    using nth_in_remove[of n "(cb_s cb)[k := w, j := v]" i] n that by simp
  show ?thesis
  proof (cases "first_match a (cb_s cb)")
    case None
    note fa = this
    show ?thesis
    proof (cases "first_match b (cb_s cb)")
      case None
      with fa assms(1) show ?thesis by (simp add: addSegment_def scan_ma scan_mb Let_def)
    next
      case (Some j)
      with fa ne keep[of j] show ?thesis by (simp add: addSegment_def scan_ma scan_mb Let_def)
    qed
  next
    case (Some i)
    note fa = this
    show ?thesis
    proof (cases "first_match b (cb_s cb)")
      case None
      with fa ne keep[of i] show ?thesis by (simp add: addSegment_def scan_ma scan_mb Let_def)
    next
      case (Some j)
      with fa ne keep[of i] keep2[of i j] keep2[of j i] keep3[of i j i] show ?thesis
        by (auto simp: addSegment_def scan_ma scan_mb merge_seqs_def remove_seq_def Let_def)
    qed
  qed
qed

lemma points_of_splice: "points_of (splice u v) = points_of u @ points_of v"
  by (simp add: points_of_def splice_def)

lemma points_of_reverseList: "points_of (reverseList c) = rev (points_of c)"
  by (simp add: points_of_def reverseList_def)

lemma points_of_prepend: "points_of (prepend_node q c) = q # points_of c"
  by (simp add: points_of_def prepend_node_def)

lemma points_of_append: "points_of (append_node q c) = points_of c @ [q]"
  by (simp add: points_of_def append_node_def)

lemma points_of_close: "points_of (close_chain c) = tail c # points_of c"
  by (simp add: points_of_def close_chain_def)

lemma closed_flag_splice: "closed_flag (splice u v) = closed_flag u"
  by (simp add: splice_def)

lemma closed_flag_reverseList: "closed_flag (reverseList c) = closed_flag c"
  by (simp add: reverseList_def)

lemma remove_update_same:
  "take i (xs[i := v]) @ drop (Suc i) (xs[i := v]) = take i xs @ drop (Suc i) xs"
  by simp

lemma merge_seqs_result:
  assumes "i \<noteq> j"
  shows "\<exists>S. points_of S =
             (if \<not> pA \<and> \<not> pB then points_of (cb_s cb ! j) @ rev (points_of (cb_s cb ! i))
              else if pA \<and> \<not> pB then points_of (cb_s cb ! j) @ points_of (cb_s cb ! i)
              else if pA \<and> pB then rev (points_of (cb_s cb ! i)) @ points_of (cb_s cb ! j)
              else points_of (cb_s cb ! i) @ points_of (cb_s cb ! j))
          \<and> closed_flag S = closed_flag (if pB then cb_s cb ! i else cb_s cb ! j)
          \<and> merge_seqs pA pB i j cb =
              cb\<lparr>cb_s := (if pB then take j ((cb_s cb)[i := S]) @ drop (Suc j) ((cb_s cb)[i := S])
                          else take i ((cb_s cb)[j := S]) @ drop (Suc i) ((cb_s cb)[j := S])),
                 cb_count := cb_count cb - 1\<rparr>"
proof -
  let ?cs = "cb_s cb"
  let ?cma = "?cs ! i" and ?cmb = "?cs ! j"
  have sw: "?cs[i := v, j := w] = ?cs[j := w, i := v]" for v w
    using \<open>i \<noteq> j\<close> by (simp add: list_update_swap)
  show ?thesis
  proof (cases pA; cases pB)
    assume "pA" "pB"
    then show ?thesis
      by (intro exI[of _ "splice (reverseList ?cma) ?cmb"])
        (simp add: merge_seqs_def remove_seq_def Let_def points_of_splice points_of_reverseList
          closed_flag_splice closed_flag_reverseList)
  next
    assume "pA" "\<not> pB"
    then show ?thesis
      by (intro exI[of _ "splice ?cmb ?cma"])
        (simp add: merge_seqs_def remove_seq_def Let_def points_of_splice closed_flag_splice)
  next
    assume "\<not> pA" "pB"
    then show ?thesis
      by (intro exI[of _ "splice ?cma ?cmb"])
        (simp add: merge_seqs_def remove_seq_def Let_def points_of_splice closed_flag_splice)
  next
    assume "\<not> pA" "\<not> pB"
    then show ?thesis
      by (intro exI[of _ "splice ?cmb (reverseList ?cma)"])
        (simp add: merge_seqs_def remove_seq_def Let_def points_of_splice points_of_reverseList
          closed_flag_splice closed_flag_reverseList sw)
  qed
qed

text \<open>
  C2 (merging two chains). Let the chain at position \<open>i\<close> be the first that \<open>a\<close>
  matches and the chain at position \<open>j \<noteq> i\<close> the first that \<open>b\<close> matches, with
  \<open>pA\<close> and \<open>pB\<close> telling whether the match is at the head. Exactly one of the four
  joins applies: tail-tail (neither at the head) gives the walk of \<open>mb\<close> followed by the
  reversed walk of \<open>ma\<close>; head-tail (\<open>pA\<close> only) the walk of \<open>mb\<close> followed by the
  walk of \<open>ma\<close>; head-head the reversed walk of \<open>ma\<close> followed by the walk of \<open>mb\<close>;
  tail-head (\<open>pB\<close> only) the walk of \<open>ma\<close> followed by the walk of \<open>mb\<close>. The
  surviving record (\<open>mb\<close> in the first two joins, \<open>ma\<close> in the other two) keeps its
  place and its flag, the other record is removed from the chain list, and the count
  drops by one.
\<close>

theorem C2_merge:
  assumes "i < length (cb_s cb)" and "j < length (cb_s cb)" and "i \<noteq> j"
    and "pointsEqual a (head (cb_s cb ! i)) \<or> pointsEqual a (tail (cb_s cb ! i))"
    and "\<forall>n<i. \<not> pointsEqual a (head (cb_s cb ! n)) \<and> \<not> pointsEqual a (tail (cb_s cb ! n))"
    and "pointsEqual b (head (cb_s cb ! j)) \<or> pointsEqual b (tail (cb_s cb ! j))"
    and "\<forall>n<j. \<not> pointsEqual b (head (cb_s cb ! n)) \<and> \<not> pointsEqual b (tail (cb_s cb ! n))"
  shows "(let cs = cb_s cb; cma = cs ! i; cmb = cs ! j;
              pA = pointsEqual a (head cma); pB = pointsEqual b (head cmb)
          in \<exists>S. points_of S =
                    (if \<not> pA \<and> \<not> pB then points_of cmb @ rev (points_of cma)
                     else if pA \<and> \<not> pB then points_of cmb @ points_of cma
                     else if pA \<and> pB then rev (points_of cma) @ points_of cmb
                     else points_of cma @ points_of cmb)
                \<and> closed_flag S = closed_flag (if pB then cma else cmb)
                \<and> addSegment a b cb =
                    cb\<lparr>cb_s := (if pB then take j (cs[i := S]) @ drop (Suc j) (cs[i := S])
                                else take i (cs[j := S]) @ drop (Suc i) (cs[j := S])),
                       cb_count := cb_count cb - 1\<rparr>)
         \<and> length (cb_s (addSegment a b cb)) + 1 = length (cb_s cb)"
proof -
  let ?cs = "cb_s cb"
  let ?cma = "?cs ! i" and ?cmb = "?cs ! j"
  have fa: "first_match a ?cs = Some i"
    using assms by (intro first_matchI) (auto simp: matches_def)
  have fb: "first_match b ?cs = Some j"
    using assms by (intro first_matchI) (auto simp: matches_def)
  have eq: "addSegment a b cb =
      merge_seqs (pointsEqual a (head ?cma)) (pointsEqual b (head ?cmb)) i j cb"
    using \<open>i \<noteq> j\<close> by (simp add: addSegment_def scan_ma scan_mb scan_prependA scan_prependB fa fb Let_def)
  have len: "length (cb_s (merge_seqs pA pB i j cb)) + 1 = length ?cs" for pA pB
    using assms(1,2) by (auto simp: merge_seqs_def remove_seq_def Let_def)
  show ?thesis
    unfolding eq Let_def
    using merge_seqs_result[OF \<open>i \<noteq> j\<close>, of "pointsEqual a (head ?cma)" "pointsEqual b (head ?cmb)" cb]
      len
    by simp
qed

text \<open>
  C5 (perimeter code). For the first or the last point \<open>p\<close> of the walk of a chain,
  \<open>code\<close> returns without error, testing in this order: \<open>x\<close> near \<open>minx\<close> gives
  \<open>(0, y)\<close>, \<open>y\<close> near \<open>maxy\<close> gives \<open>(1, x)\<close>, \<open>x\<close> near \<open>maxx\<close> gives
  \<open>(2, -y)\<close>, \<open>y\<close> near \<open>miny\<close> gives \<open>(3, -x)\<close>, and \<open>(0, 0)\<close> otherwise, where
  near means that the squared difference is below \<open>1e-20\<close>.
\<close>

theorem C5_code:
  "code bd (points_of c) chooseLast =
     Inr (let p = (if chooseLast then tail c else head c) in
          if (p_x p - minx bd) * (p_x p - minx bd) < 1 / 10 ^ 20 then (0, p_y p)
          else if (p_y p - maxy bd) * (p_y p - maxy bd) < 1 / 10 ^ 20 then (1, p_x p)
          else if (p_x p - maxx bd) * (p_x p - maxx bd) < 1 / 10 ^ 20 then (2, - p_y p)
          else if (p_y p - miny bd) * (p_y p - miny bd) < 1 / 10 ^ 20 then (3, - p_x p)
          else (0, 0))"
proof -
  have l: "points_of c ! (length (mid c) + 1) = tail c"
    by (simp add: points_of_def nth_append)
  have h: "points_of c ! 0 = head c"
    by (simp add: points_of_def)
  have n: "length (points_of c) = length (mid c) + 2"
    by (simp add: points_of_def)
  show ?thesis
  proof (cases chooseLast)
    case True
    have "nat (int (length (mid c) + 2) - 1) = length (mid c) + 1" by simp
    with True l show ?thesis
      by (simp add: code_def n closeEnough_def EPSILON_def Let_def del: of_nat_add)
  next
    case False
    with h show ?thesis
      by (simp add: code_def n closeEnough_def EPSILON_def Let_def)
  qed
qed

lemma corners_loop_eq:
  "corners_loop bd c0e ce fullEdge =
     map (\<lambda>m. corner bd (m smod 4)) [ce + 1..c0e] @ fullEdge"
proof (induction bd c0e ce fullEdge rule: corners_loop.induct)
  case (1 bd c0e ce fullEdge)
  show ?case
  proof (cases "c0e > ce")
    case True
    then have "[ce + 1..c0e] = [ce + 1..c0e - 1] @ [c0e]"
      by (simp add: upto_rec2)
    with True "1.IH" show ?thesis
      by (subst corners_loop.simps) simp
  next
    case False
    then show ?thesis by (subst corners_loop.simps) simp
  qed
qed

lemma code_nonempty: "points \<noteq> [] \<Longrightarrow> \<exists>c. code bd points chooseLast = Inr c"
  by (cases points) (auto simp: code_def Let_def)

lemma code_Inr_nonempty: "code bd points chooseLast = Inr c \<Longrightarrow> points \<noteq> []"
  by (auto simp: code_def Let_def split: if_splits)

lemma compare_total:
  "pl_points u \<noteq> [] \<Longrightarrow> pl_points v \<noteq> [] \<Longrightarrow> \<exists>d. compare bd u v = Inr d"
  using code_nonempty[of "pl_points u" bd False] code_nonempty[of "pl_points v" bd False]
  by (auto simp: compare_def)

lemma insert_cmp_total:
  assumes "\<And>y. y \<in> set ys \<Longrightarrow> \<exists>d. cmp x y = Inr d"
  shows "\<exists>zs. insert_cmp cmp x ys = Inr zs"
  using assms
proof (induction ys)
  case Nil
  then show ?case by simp
next
  case (Cons y ys)
  from Cons.prems[of y] obtain d where d: "cmp x y = Inr d" by auto
  from Cons.IH Cons.prems obtain zs where "insert_cmp cmp x ys = Inr zs" by auto
  with d show ?case by simp
qed

lemma insert_cmp_mset: "insert_cmp cmp x ys = Inr zs \<Longrightarrow> mset zs = add_mset x (mset ys)"
  by (induction ys arbitrary: zs) (auto split: sum.splits if_splits)

lemma sort_cmp_mset: "sort_cmp cmp xs = Inr ys \<Longrightarrow> mset ys = mset xs"
  by (induction xs arbitrary: ys) (auto split: sum.splits dest: insert_cmp_mset)

lemma sort_cmp_total:
  assumes "\<And>x y. x \<in> set xs \<Longrightarrow> y \<in> set xs \<Longrightarrow> \<exists>d. cmp x y = Inr d"
  shows "\<exists>ys. sort_cmp cmp xs = Inr ys"
  using assms
proof (induction xs)
  case Nil
  then show ?case by simp
next
  case (Cons x xs)
  from Cons obtain r where r: "sort_cmp cmp xs = Inr r" by auto
  then have "set r = set xs" by (metis sort_cmp_mset set_mset_mset)
  with Cons.prems have "\<And>y. y \<in> set r \<Longrightarrow> \<exists>d. cmp x y = Inr d" by simp
  then have "\<exists>zs. insert_cmp cmp x r = Inr zs" by (rule insert_cmp_total)
  with r show ?case by auto
qed

lemma insert_key_sorted:
  fixes key :: "'a \<Rightarrow> nat"
  assumes "insert_cmp (\<lambda>u v. Inr (of_nat (key u) - of_nat (key v))) x ys = Inr zs"
    and "sorted (map key ys)"
  shows "sorted (map key zs)"
  using assms
proof (induction ys arbitrary: zs)
  case Nil
  then show ?case by auto
next
  case (Cons y ys)
  show ?case
  proof (cases "key x \<le> key y")
    case True
    with Cons.prems show ?thesis by (fastforce intro: order_trans)
  next
    case False
    with Cons.prems obtain r where
      r: "insert_cmp (\<lambda>u v. Inr (of_nat (key u) - of_nat (key v))) x ys = Inr r" "zs = y # r"
      by (auto split: sum.splits)
    from Cons.IH[OF r(1)] Cons.prems(2) have s: "sorted (map key r)" by simp
    have "set r = insert x (set ys)"
      using insert_cmp_mset[OF r(1)] by (metis set_mset_add_mset_insert set_mset_mset)
    with s False Cons.prems(2) r(2) show ?thesis by auto
  qed
qed

lemma sort_key_sorted:
  fixes key :: "'a \<Rightarrow> nat"
  shows "sort_cmp (\<lambda>u v. Inr (of_nat (key u) - of_nat (key v))) xs = Inr ys \<Longrightarrow> sorted (map key ys)"
  by (induction xs arbitrary: ys) (auto split: sum.splits intro: insert_key_sorted)

lemma sort_key_total:
  fixes key :: "'a \<Rightarrow> nat"
  shows "\<exists>ys. sort_cmp (\<lambda>u v. Inr (of_nat (key u) - of_nat (key v))) xs = Inr ys"
  by (rule sort_cmp_total) simp

lemma stitch_total:
  assumes "pl_points edge \<noteq> []" and "\<forall>u \<in> set rest. pl_points u \<noteq> []"
  shows "\<exists>pl. stitch bd edge rest = Inr pl
           \<and> pl_k pl = pl_k (last (edge # rest)) \<and> pl_level pl = pl_level (last (edge # rest))
           \<and> set (pl_points edge) \<subseteq> set (pl_points pl)
           \<and> (\<forall>u \<in> set rest. set (pl_points u) \<subseteq> set (pl_points pl))"
  using assms
proof (induction rest arbitrary: edge)
  case Nil
  from code_nonempty[OF Nil(1)] obtain c' c0 where
    c: "code bd (pl_points edge) True = Inr c'" "code bd (pl_points edge) False = Inr c0" by metis
  from code_nonempty[of "[last (pl_points edge)]"] obtain c1 where
    c1: "code bd [last (pl_points edge)] True = Inr c1" by blast
  show ?case by (auto simp: c c1 connect_def corners_loop_eq)
next
  case (Cons fullEdge rest)
  from code_nonempty[OF Cons.prems(1)] obtain c where
    c: "code bd (pl_points edge) True = Inr c" by metis
  from Cons.prems(2) have "pl_points fullEdge \<noteq> []" by simp
  from code_nonempty[OF this] obtain c0 where
    c0: "code bd (pl_points fullEdge) False = Inr c0" by metis
  let ?fe = "fullEdge\<lparr>pl_points := connect bd (pl_points edge) c c0 (pl_points fullEdge)\<rparr>"
  have ne: "pl_points ?fe \<noteq> []" using Cons.prems(1) by (simp add: connect_def)
  have sub: "set (pl_points edge) \<subseteq> set (pl_points ?fe)"
      "set (pl_points fullEdge) \<subseteq> set (pl_points ?fe)"
    by (auto simp: connect_def corners_loop_eq)
  from Cons.IH[OF ne] Cons.prems(2) obtain pl where
    pl: "stitch bd ?fe rest = Inr pl" "pl_k pl = pl_k (last (?fe # rest))"
      "pl_level pl = pl_level (last (?fe # rest))"
      "set (pl_points ?fe) \<subseteq> set (pl_points pl)"
      "\<forall>u \<in> set rest. set (pl_points u) \<subseteq> set (pl_points pl)"
    by auto
  have "stitch bd edge (fullEdge # rest) = Inr pl" using pl(1) by (simp add: c c0)
  moreover have "pl_k pl = pl_k (last (edge # fullEdge # rest))"
      "pl_level pl = pl_level (last (edge # fullEdge # rest))"
    using pl(2,3) by (cases rest; simp)+
  ultimately show ?case using pl(4,5) sub by auto
qed

lemma points_of_nonempty: "points_of c \<noteq> []"
  by (simp add: points_of_def)

lemma close_unclosed_Nil: "close_unclosed bd [] = Inr []"
  by (simp add: close_unclosed_def)

lemma close_unclosed_single:
  assumes "unclosed \<noteq> []" and "\<forall>u \<in> set unclosed. pl_points u \<noteq> [] \<and> pl_k u = k \<and> pl_level u = lv"
  shows "\<exists>pl. close_unclosed bd unclosed = Inr [pl] \<and> pl_k pl = k \<and> pl_level pl = lv
            \<and> (\<forall>u \<in> set unclosed. set (pl_points u) \<subseteq> set (pl_points pl))"
proof -
  have "\<exists>ys. sort_cmp (compare bd) unclosed = Inr ys"
    using assms(2) by (intro sort_cmp_total compare_total) auto
  then obtain ys where ys: "sort_cmp (compare bd) unclosed = Inr ys" by blast
  then have m: "mset ys = mset unclosed" by (rule sort_cmp_mset)
  then have s: "set ys = set unclosed" by (metis set_mset_mset)
  from m assms(1) have "ys \<noteq> []" by auto
  then obtain edge rest where er: "ys = edge # rest" by (cases ys) auto
  have ne: "pl_points edge \<noteq> []" "\<forall>u \<in> set rest. pl_points u \<noteq> []"
    using s er assms(2) by auto
  from stitch_total[OF ne, of bd] obtain pl where
    pl: "stitch bd edge rest = Inr pl" "pl_k pl = pl_k (last (edge # rest))"
      "pl_level pl = pl_level (last (edge # rest))"
      "set (pl_points edge) \<subseteq> set (pl_points pl)"
      "\<forall>u \<in> set rest. set (pl_points u) \<subseteq> set (pl_points pl)"
    by blast
  have "last (edge # rest) \<in> set unclosed"
    using s er by (metis last_in_set list.distinct(1))
  with assms(2) pl(2,3) have kl: "pl_k pl = k" "pl_level pl = lv" by auto
  have "close_unclosed bd unclosed = Inr [pl]"
    by (simp add: close_unclosed_def ys er pl(1))
  moreover have "\<forall>u \<in> set unclosed. set (pl_points u) \<subseteq> set (pl_points pl)"
  proof
    fix u assume "u \<in> set unclosed"
    then have "u = edge \<or> u \<in> set rest" using s er by auto
    with pl(4,5) show "set (pl_points u) \<subseteq> set (pl_points pl)" by blast
  qed
  ultimately show ?thesis using kl by blast
qed

lemma code_last: "ps \<noteq> [] \<Longrightarrow> code bd ps True = code bd [last ps] False"
  by (simp add: code_def Let_def last_conv_nth nat_diff_distrib')

lemma code_hd: "ps \<noteq> [] \<Longrightarrow> code bd ps False = code bd [hd ps] False"
  by (simp add: code_def Let_def hd_conv_nth)

lemma code_single: "code bd [p] True = code bd [p] False"
  by (simp add: code_def Let_def)

lemma connect_corners_between:
  assumes "code bd [p] False = Inr c" and "code bd [q] False = Inr c0"
  shows "connect bd edge c c0 fullEdge = edge @ corners_between bd p q @ fullEdge"
  using assms
  by (simp add: connect_def corners_loop_eq corner_def corners_between_def edge_index_def Let_def)

lemma joined_append: "B \<noteq> [] \<Longrightarrow> joined bd (A @ B) fs = A @ joined bd B fs"
  by (cases fs) simp_all

lemma joined_ends:
  assumes "e \<noteq> []" and "\<forall>f \<in> set fs. f \<noteq> []"
  shows "joined bd e fs \<noteq> [] \<and> hd (joined bd e fs) = hd e
       \<and> last (joined bd e fs) = last (last (e # fs))"
  using assms
proof (induction fs arbitrary: e)
  case Nil
  then show ?case by simp
next
  case (Cons f fs)
  from Cons.prems have f: "f \<noteq> []" "\<forall>g \<in> set fs. g \<noteq> []" by simp_all
  from Cons.IH[OF f] Cons.prems(1) show ?case by simp
qed

lemma joined_subset: "set e \<subseteq> set (joined bd e fs) \<and> (\<forall>f \<in> set fs. set f \<subseteq> set (joined bd e fs))"
  by (induction fs arbitrary: e) fastforce+

lemma closed_up_subset: "es \<noteq> [] \<Longrightarrow> e \<in> set es \<Longrightarrow> set e \<subseteq> set (closed_up bd es)"
  using joined_subset[of "hd es" bd "tl es"]
  by (cases es) (auto simp: closed_up_def)

lemma stitch_result:
  assumes "pl_points edge \<noteq> []" and "\<forall>u \<in> set rest. pl_points u \<noteq> []"
  shows "stitch bd edge rest =
           Inr ((last (edge # rest))\<lparr>pl_points := closed_up bd (map pl_points (edge # rest))\<rparr>)"
  using assms
proof (induction rest arbitrary: edge)
  case Nil
  let ?ps = "pl_points edge"
  from code_nonempty[OF Nil(1)] obtain c' where c': "code bd ?ps True = Inr c'" by metis
  from code_nonempty[of "[last ?ps]" bd False] obtain c where c: "code bd [last ?ps] False = Inr c"
    by auto
  from code_nonempty[of "[hd ?ps]" bd False] obtain c0 where c0: "code bd [hd ?ps] False = Inr c0"
    by auto
  have "connect bd [last ?ps] c c0 ?ps = [last ?ps] @ corners_between bd (last ?ps) (hd ?ps) @ ?ps"
    using c c0 by (rule connect_corners_between)
  then show ?case
    using c' c c0 Nil(1) by (simp add: code_single code_hd[OF Nil(1)] closed_up_def)
next
  case (Cons fullEdge rest)
  let ?ps = "pl_points edge" and ?qs = "pl_points fullEdge"
  from Cons.prems have ne: "?ps \<noteq> []" "?qs \<noteq> []" "\<forall>u \<in> set rest. pl_points u \<noteq> []" by simp_all
  from code_nonempty[of "[last ?ps]" bd False] obtain c where c: "code bd [last ?ps] False = Inr c"
    by auto
  from code_nonempty[of "[hd ?qs]" bd False] obtain c0 where c0: "code bd [hd ?qs] False = Inr c0"
    by auto
  let ?fe = "fullEdge\<lparr>pl_points := ?ps @ corners_between bd (last ?ps) (hd ?qs) @ ?qs\<rparr>"
  have cn: "connect bd ?ps c c0 ?qs = ?ps @ corners_between bd (last ?ps) (hd ?qs) @ ?qs"
    using c c0 by (rule connect_corners_between)
  have st: "stitch bd edge (fullEdge # rest) = stitch bd ?fe rest"
    using c c0 cn by (simp add: code_last[OF ne(1)] code_hd[OF ne(2)])
  have ne': "pl_points ?fe \<noteq> []" using ne(1) by simp
  have j: "joined bd (pl_points ?fe) (map pl_points rest)
      = joined bd ?ps (?qs # map pl_points rest)"
    using joined_append[OF ne(2), of bd "?ps @ corners_between bd (last ?ps) (hd ?qs)" "map pl_points rest"]
    by simp
  have l: "(last (?fe # rest))\<lparr>pl_points := X\<rparr> = (last (edge # fullEdge # rest))\<lparr>pl_points := X\<rparr>" for X
    by (cases rest) simp_all
  have ll: "last (last (pl_points ?fe # map pl_points rest))
      = last (last (?ps # ?qs # map pl_points rest))"
    using ne(2) by (cases rest) simp_all
  have h: "hd (pl_points ?fe) = hd ?ps" using ne(1) by simp
  have cu: "closed_up bd (map pl_points (?fe # rest))
      = closed_up bd (map pl_points (edge # fullEdge # rest))"
    unfolding closed_up_def list.map list.sel ll h j by (rule refl)
  from Cons.IH[OF ne' ne(3)] have "stitch bd ?fe rest
      = Inr ((last (?fe # rest))\<lparr>pl_points := closed_up bd (map pl_points (?fe # rest))\<rparr>)" .
  then show ?case unfolding st cu l .
qed

lemma insert_cmp_sorted:
  assumes "insert_cmp cmp x ys = Inr zs" and "sorted_wrt le ys"
    and le: "\<And>u v d. cmp u v = Inr d \<Longrightarrow> (d \<le> 0 \<longrightarrow> le u v) \<and> (\<not> d \<le> 0 \<longrightarrow> le v u)"
    and tr: "\<And>u v w. le u v \<Longrightarrow> le v w \<Longrightarrow> le u w"
  shows "sorted_wrt le zs"
  using assms(1,2)
proof (induction ys arbitrary: zs)
  case Nil
  then show ?case by auto
next
  case (Cons y ys)
  from Cons.prems(1) obtain d where d: "cmp x y = Inr d" by (auto split: sum.splits)
  show ?case
  proof (cases "d \<le> 0")
    case True
    with le[OF d] have xy: "le x y" by simp
    from Cons.prems(2) have "\<forall>v \<in> set ys. le y v" by simp
    with xy have "\<forall>v \<in> set ys. le x v" by (blast intro: tr)
    with True d xy Cons.prems show ?thesis by auto
  next
    case False
    with le[OF d] have yx: "le y x" by simp
    from False d Cons.prems(1) obtain r where r: "insert_cmp cmp x ys = Inr r" "zs = y # r"
      by (auto split: sum.splits)
    from Cons.IH[OF r(1)] Cons.prems(2) have s: "sorted_wrt le r" by simp
    have "set r = insert x (set ys)"
      using insert_cmp_mset[OF r(1)] by (metis set_mset_add_mset_insert set_mset_mset)
    with s yx Cons.prems(2) r(2) show ?thesis by auto
  qed
qed

lemma sort_cmp_sorted:
  assumes "sort_cmp cmp xs = Inr ys"
    and le: "\<And>u v d. cmp u v = Inr d \<Longrightarrow> (d \<le> 0 \<longrightarrow> le u v) \<and> (\<not> d \<le> 0 \<longrightarrow> le v u)"
    and tr: "\<And>u v w. le u v \<Longrightarrow> le v w \<Longrightarrow> le u w"
  shows "sorted_wrt le ys"
  using assms(1)
proof (induction xs arbitrary: ys)
  case Nil
  then show ?case by simp
next
  case (Cons x xs)
  from Cons.prems obtain r where r: "sort_cmp cmp xs = Inr r" "insert_cmp cmp x r = Inr ys"
    by (auto split: sum.splits)
  from Cons.IH[OF r(1)] have "sorted_wrt le r" .
  with r(2) show ?case using le tr by (rule insert_cmp_sorted)
qed

lemma insert_cmp_map:
  "insert_cmp cmp (f x) (map f ys) =
     (case insert_cmp (\<lambda>a b. cmp (f a) (f b)) x ys of Inl e \<Rightarrow> Inl e | Inr r \<Rightarrow> Inr (map f r))"
  by (induction ys) (auto split: sum.splits)

lemma sort_cmp_map:
  "sort_cmp cmp (map f xs) =
     (case sort_cmp (\<lambda>a b. cmp (f a) (f b)) xs of Inl e \<Rightarrow> Inl e | Inr r \<Rightarrow> Inr (map f r))"
  by (induction xs) (auto simp: insert_cmp_map split: sum.splits)

lemma code_le_trans: "code_le bd p q \<Longrightarrow> code_le bd q r \<Longrightarrow> code_le bd p r"
  by (auto simp: code_le_def split: sum.splits)

lemma compare_code_le:
  assumes "compare bd u v = Inr d"
  shows "(d \<le> 0 \<longrightarrow> code_le bd (hd (pl_points u)) (hd (pl_points v)))
       \<and> (\<not> d \<le> 0 \<longrightarrow> code_le bd (hd (pl_points v)) (hd (pl_points u)))"
proof -
  from assms obtain a0 b0 where c: "code bd (pl_points u) False = Inr a0"
    "code bd (pl_points v) False = Inr b0"
    "d = (if fst a0 = fst b0 then snd a0 - snd b0 else of_int (fst a0 - fst b0))"
    by (auto simp: compare_def split: sum.splits if_splits)
  have ne: "pl_points u \<noteq> []" "pl_points v \<noteq> []"
    using c(1,2) by (auto dest: code_Inr_nonempty)
  from c(1,2) have "code bd [hd (pl_points u)] False = Inr a0" "code bd [hd (pl_points v)] False = Inr b0"
    by (simp_all add: code_hd[OF ne(1), symmetric] code_hd[OF ne(2), symmetric])
  with c(3) show ?thesis by (auto simp: code_le_def)
qed

text \<open>
  C4 (corner insertion). The closing loop, run on the arrays \<^verbatim>\<open>unclosed\<close> after the
  sort, returns the last array with these points: the arrays in their order, each
  array's last point connected to the next array's first point by the corners between
  them, and in front of all the last point of the last array, connected to the first
  point of the first array by the corners between them. The corners between a point
  with edge index \<open>c\<close> and a point with edge index \<open>c0\<close> are those of
  \<open>corners_between\<close>: \<open>c0\<close> is raised by 4 when it is below \<open>c\<close>, and there is one
  corner for every edge index \<open>m\<close> from \<open>c + 1\<close> to \<open>c0\<close>, with \<open>x = minx\<close> when
  \<open>m % 4\<close> is 0 or 1 and \<open>maxx\<close> otherwise, and \<open>y = miny\<close> when \<open>m % 4\<close> is 3 or 0
  and \<open>maxy\<close> otherwise.
\<close>

theorem C4_corners:
  assumes "pl_points edge \<noteq> []" and "\<forall>u \<in> set rest. pl_points u \<noteq> []"
  shows "stitch bd edge rest =
           Inr ((last (edge # rest))\<lparr>pl_points := closed_up bd (map pl_points (edge # rest))\<rparr>)"
  using assms by (rule stitch_result)

lemma close_unclosed_result:
  assumes "\<forall>c \<in> set cs. points_of c \<noteq> []"
  shows "\<exists>ys. mset ys = mset cs
      \<and> sorted_wrt (\<lambda>u v. code_le bd (head u) (head v)) ys
      \<and> close_unclosed bd (map (chain_polyline lv k) cs)
          = Inr (if ys = [] then []
                 else [\<lparr>pl_points = closed_up bd (map points_of ys), pl_level = lv, pl_k = k\<rparr>])"
proof -
  let ?f = "chain_polyline lv k"
  let ?cmp = "\<lambda>a b. compare bd (?f a) (?f b)"
  have "\<exists>ys. sort_cmp ?cmp cs = Inr ys"
    by (rule sort_cmp_total) (simp add: compare_total chain_polyline_def points_of_nonempty)
  then obtain ys where ys: "sort_cmp ?cmp cs = Inr ys" by blast
  have m: "mset ys = mset cs" using ys by (rule sort_cmp_mset)
  have hd: "hd (pl_points (?f c)) = head c" for c by (simp add: chain_polyline_def points_of_def)
  have s: "sorted_wrt (\<lambda>u v. code_le bd (head u) (head v)) ys"
  proof (rule sort_cmp_sorted[OF ys])
    fix u v d assume "compare bd (?f u) (?f v) = Inr d"
    from compare_code_le[OF this]
    show "(d \<le> 0 \<longrightarrow> code_le bd (head u) (head v)) \<and> (\<not> d \<le> 0 \<longrightarrow> code_le bd (head v) (head u))"
      by (simp add: hd)
  next
    fix u v w :: chain
    assume "code_le bd (head u) (head v)" "code_le bd (head v) (head w)"
    then show "code_le bd (head u) (head w)" by (rule code_le_trans)
  qed
  have srt: "sort_cmp (compare bd) (map ?f cs) = Inr (map ?f ys)"
    by (simp add: sort_cmp_map ys)
  have r: "close_unclosed bd (map ?f cs)
      = Inr (if ys = [] then []
             else [\<lparr>pl_points = closed_up bd (map points_of ys), pl_level = lv, pl_k = k\<rparr>])"
  proof (cases ys)
    case Nil
    then show ?thesis by (simp add: close_unclosed_def srt)
  next
    case (Cons e es)
    have ne: "pl_points (?f e) \<noteq> []" "\<forall>u \<in> set (map ?f es). pl_points u \<noteq> []"
      by (simp_all add: chain_polyline_def points_of_nonempty)
    have pm: "map pl_points (map ?f ys) = map points_of ys"
      by (simp add: chain_polyline_def)
    have "last (?f e # map ?f es) = ?f (last ys)" using Cons by (simp add: last_map)
    then have "(last (?f e # map ?f es))\<lparr>pl_points := X\<rparr>
        = \<lparr>pl_points = X, pl_level = lv, pl_k = k\<rparr>" for X
      by (simp add: chain_polyline_def)
    moreover have "map pl_points (?f e # map ?f es) = map points_of ys"
      using pm Cons by simp
    ultimately have "stitch bd (?f e) (map ?f es)
        = Inr \<lparr>pl_points = closed_up bd (map points_of ys), pl_level = lv, pl_k = k\<rparr>"
      using stitch_result[OF ne, of bd] by simp
    then show ?thesis using Cons by (simp add: close_unclosed_def srt)
  qed
  from m s r show ?thesis by blast
qed

text \<open>
  C6, as amended (one polyline for the open chains of a level). The closing loop joins
  every open chain of a level into the one array that is pushed after the loop. With
  \<open>cs\<close> the open chains of the level in ascending order of the perimeter codes of
  their head points, a level with an open chain yields its closed chains and exactly
  one further polyline, whose points are the chains of \<open>cs\<close> joined in this order and
  closed up through the corners; it holds the points of every open chain of the level.
  A level without open chains yields its closed chains only.
\<close>

theorem C6_single_polyline:
  "\<exists>cs. mset cs = mset (filter (\<lambda>c. \<not> closed_flag c) (cb_s cb))
      \<and> sorted_wrt (\<lambda>u v. code_le bd (head u) (head v)) cs
      \<and> contourList_level bd k cb =
          Inr (map (chain_polyline (cb_level cb) k) (filter closed_flag (cb_s cb))
               @ (if cs = [] then []
                  else [\<lparr>pl_points = closed_up bd (map points_of cs),
                         pl_level = cb_level cb, pl_k = k\<rparr>]))
      \<and> (\<forall>c \<in> set (cb_s cb). \<not> closed_flag c \<longrightarrow>
            set (points_of c) \<subseteq> set (closed_up bd (map points_of cs)))"
proof -
  let ?un = "filter (\<lambda>c. \<not> closed_flag c) (cb_s cb)"
  have "\<forall>c \<in> set ?un. points_of c \<noteq> []" by (simp add: points_of_nonempty)
  from close_unclosed_result[OF this, of bd "cb_level cb" k] obtain cs where cs:
    "mset cs = mset ?un" "sorted_wrt (\<lambda>u v. code_le bd (head u) (head v)) cs"
    "close_unclosed bd (map (chain_polyline (cb_level cb) k) ?un)
       = Inr (if cs = [] then []
              else [\<lparr>pl_points = closed_up bd (map points_of cs), pl_level = cb_level cb, pl_k = k\<rparr>])"
    by blast
  have st: "set cs = set ?un" using cs(1) by (metis set_mset_mset)
  have "set (points_of c) \<subseteq> set (closed_up bd (map points_of cs))"
    if "c \<in> set (cb_s cb)" "\<not> closed_flag c" for c
  proof -
    from that st have "c \<in> set cs" by simp
    then have "points_of c \<in> set (map points_of cs)" "map points_of cs \<noteq> []" by auto
    then show ?thesis by (intro closed_up_subset)
  qed
  moreover have "contourList_level bd k cb =
          Inr (map (chain_polyline (cb_level cb) k) (filter closed_flag (cb_s cb))
               @ (if cs = [] then []
                  else [\<lparr>pl_points = closed_up bd (map points_of cs),
                         pl_level = cb_level cb, pl_k = k\<rparr>]))"
    by (simp add: contourList_level_def Let_def cs(3))
  ultimately show ?thesis using cs(1,2) by blast
qed

lemma contourList_level_keys:
  "\<exists>r. contourList_level bd k cb = Inr r \<and> (\<forall>pl \<in> set r. pl_k pl = k \<and> pl_level pl = cb_level cb)"
proof (cases "filter (\<lambda>c. \<not> closed_flag c) (cb_s cb) = []")
  case True
  then show ?thesis
    by (auto simp: contourList_level_def close_unclosed_Nil chain_polyline_def)
next
  case False
  let ?un = "map (chain_polyline (cb_level cb) k) (filter (\<lambda>c. \<not> closed_flag c) (cb_s cb))"
  from False have "?un \<noteq> []" by simp
  moreover have "\<forall>u \<in> set ?un. pl_points u \<noteq> [] \<and> pl_k u = k \<and> pl_level u = cb_level cb"
    by (auto simp: chain_polyline_def points_of_nonempty)
  ultimately obtain pl where pl: "close_unclosed bd ?un = Inr [pl]" "pl_k pl = k"
      "pl_level pl = cb_level cb"
    using close_unclosed_single[of ?un k "cb_level cb" bd] by blast
  then show ?thesis
    by (auto simp: contourList_level_def Let_def chain_polyline_def)
qed

lemma contourList_levels_keys:
  "\<exists>l. contourList_levels bd k cbs = Inr l
      \<and> (\<forall>pl \<in> set l. k \<le> pl_k pl \<and> pl_k pl < k + length cbs
                        \<and> pl_level pl = cb_level (cbs ! (pl_k pl - k)))"
proof (induction cbs arbitrary: k)
  case Nil
  then show ?case by simp
next
  case (Cons cb cbs)
  from contourList_level_keys[of bd k cb] obtain r where
    r: "contourList_level bd k cb = Inr r" "\<forall>pl \<in> set r. pl_k pl = k \<and> pl_level pl = cb_level cb"
    by blast
  from Cons.IH[of "Suc k"] obtain rs where
    rs: "contourList_levels bd (Suc k) cbs = Inr rs"
      "\<forall>pl \<in> set rs. Suc k \<le> pl_k pl \<and> pl_k pl < Suc k + length cbs
                        \<and> pl_level pl = cb_level (cbs ! (pl_k pl - Suc k))"
    by blast
  have "contourList_levels bd k (cb # cbs) = Inr (r @ rs)" by (simp add: r(1) rs(1))
  moreover have "k \<le> pl_k pl \<and> pl_k pl < k + length (cb # cbs)
                        \<and> pl_level pl = cb_level ((cb # cbs) ! (pl_k pl - k))"
    if "pl \<in> set (r @ rs)" for pl
  proof (cases "pl \<in> set r")
    case True
    with r(2) show ?thesis by auto
  next
    case False
    with that have "pl \<in> set rs" by auto
    with rs(2) have *: "Suc k \<le> pl_k pl" "pl_k pl < Suc k + length cbs"
      "pl_level pl = cb_level (cbs ! (pl_k pl - Suc k))" by auto
    then have "pl_k pl - k = Suc (pl_k pl - Suc k)" by simp
    with * show ?thesis by simp
  qed
  ultimately show ?case by blast
qed

lemma cb_level_addSegment: "cb_level (addSegment a b cb) = cb_level cb"
  by (auto simp: addSegment_def merge_seqs_def remove_seq_def Let_def split: option.splits)

lemma cb_level_scan_triangles: "cb_level (scan_triangles iat ts l) = l"
proof -
  have "cb_level (foldl (\<lambda>cb t. case iat t l of None \<Rightarrow> cb | Some (p0, p1) \<Rightarrow> addSegment p0 p1 cb)
       cb0 ts) = cb_level cb0" for cb0
    by (induction ts arbitrary: cb0) (auto simp: cb_level_addSegment split: option.splits)
  then show ?thesis by (simp add: scan_triangles_def new_ContourBuilder_def)
qed

text \<open>
  C8 (output order). \<open>buildImplied\<close> returns a list of polylines, without error, that
  is sorted in ascending order of the key \<open>k\<close>; every key is an index of the levels
  sequence, and the polyline's level is the level at that index.
\<close>

theorem C8_sorted:
  "\<exists>lines. buildImplied intersectAt bd levels triangles = Inr lines
      \<and> sorted (map pl_k lines)
      \<and> list_all (\<lambda>pl. pl_k pl < length levels \<and> pl_level pl = levels ! pl_k pl) lines"
proof -
  let ?cbs = "map (scan_triangles intersectAt triangles) levels"
  from contourList_levels_keys[of bd 0 ?cbs] obtain l where
    l: "contourList_levels bd 0 ?cbs = Inr l"
      "\<forall>pl \<in> set l. pl_k pl < length levels \<and> pl_level pl = cb_level (?cbs ! pl_k pl)"
    by auto
  from sort_key_total[of pl_k l] obtain lines where
    lines: "sort_cmp (\<lambda>u v. Inr (of_nat (pl_k u) - of_nat (pl_k v))) l = Inr lines" by blast
  then have "set lines = set l" by (metis sort_cmp_mset set_mset_mset)
  with l(2) have "list_all (\<lambda>pl. pl_k pl < length levels \<and> pl_level pl = levels ! pl_k pl) lines"
    by (auto simp: list_all_iff cb_level_scan_triangles)
  moreover have "sorted (map pl_k lines)" using lines by (rule sort_key_sorted)
  moreover have "buildImplied intersectAt bd levels triangles = Inr lines"
    by (simp add: buildImplied_def contourList_def l(1) lines)
  ultimately show ?thesis by blast
qed

lemma contourList_level_empty: "cb_s cb = [] \<Longrightarrow> contourList_level bd k cb = Inr []"
  by (simp add: contourList_level_def close_unclosed_Nil)

lemma contourList_levels_empty:
  "\<forall>cb \<in> set cbs. cb_s cb = [] \<Longrightarrow> contourList_levels bd k cbs = Inr []"
  by (induction cbs arbitrary: k) (auto simp: contourList_level_empty)

lemma scan_triangles_no_crossing:
  "\<forall>t \<in> set ts. iat t l = None \<Longrightarrow> scan_triangles iat ts l = new_ContourBuilder l"
proof -
  have "\<forall>t \<in> set ts. iat t l = None \<Longrightarrow>
    foldl (\<lambda>cb t. case iat t l of None \<Rightarrow> cb | Some (p0, p1) \<Rightarrow> addSegment p0 p1 cb) cb0 ts = cb0" for cb0
    by (induction ts arbitrary: cb0) auto
  then show "\<forall>t \<in> set ts. iat t l = None \<Longrightarrow> scan_triangles iat ts l = new_ContourBuilder l"
    by (simp add: scan_triangles_def)
qed

text \<open>
  C9 (empty inputs). Without levels, without triangles, or when no triangle has a
  crossing at any level, \<open>buildImplied\<close> returns the empty list and no error.
\<close>

theorem C9_empty:
  assumes "levels = [] \<or> triangles = []
           \<or> (\<forall>l \<in> set levels. \<forall>t \<in> set triangles. intersectAt t l = None)"
  shows "buildImplied intersectAt bd levels triangles = Inr []"
proof -
  from assms have "\<forall>l \<in> set levels. \<forall>t \<in> set triangles. intersectAt t l = None" by auto
  then have "\<forall>cb \<in> set (map (scan_triangles intersectAt triangles) levels). cb_s cb = []"
    by (auto simp: scan_triangles_no_crossing new_ContourBuilder_def)
  then have "contourList_levels bd 0 (map (scan_triangles intersectAt triangles) levels) = Inr []"
    by (rule contourList_levels_empty)
  then show ?thesis by (simp add: buildImplied_def contourList_def)
qed

lemmas eval_simps = pointsEqual_def EPSILON_def Let_def

text \<open>
  Witness for C10: three chains; \<open>a = (2,0)\<close> is the tail of the second chain and the head
  of the third, \<open>b = (0,0)\<close> is the head of the first chain and the tail of the third.
  The earlier chain wins for both, and the scan stops at the second chain.
\<close>

theorem C10_scan_witness:
  "ma (scan (pt 2 0) (pt 0 0)
        \<lparr>cb_level = 0, cb_s = [open2 (pt 0 0) (pt 1 0), open2 (pt 1 0) (pt 2 0), open2 (pt 2 0) (pt 0 0)],
         cb_count = 3\<rparr>) = Some 1
   \<and> \<not> prependA (scan (pt 2 0) (pt 0 0)
        \<lparr>cb_level = 0, cb_s = [open2 (pt 0 0) (pt 1 0), open2 (pt 1 0) (pt 2 0), open2 (pt 2 0) (pt 0 0)],
         cb_count = 3\<rparr>)
   \<and> mb (scan (pt 2 0) (pt 0 0)
        \<lparr>cb_level = 0, cb_s = [open2 (pt 0 0) (pt 1 0), open2 (pt 1 0) (pt 2 0), open2 (pt 2 0) (pt 0 0)],
         cb_count = 3\<rparr>) = Some 0
   \<and> prependB (scan (pt 2 0) (pt 0 0)
        \<lparr>cb_level = 0, cb_s = [open2 (pt 0 0) (pt 1 0), open2 (pt 1 0) (pt 2 0), open2 (pt 2 0) (pt 0 0)],
         cb_count = 3\<rparr>)
   \<and> ss (scan (pt 2 0) (pt 0 0)
        \<lparr>cb_level = 0, cb_s = [open2 (pt 0 0) (pt 1 0), open2 (pt 1 0) (pt 2 0), open2 (pt 2 0) (pt 0 0)],
         cb_count = 3\<rparr>) = Some 1"
  using C10_scan[where a="pt 2 0" and b="pt 0 0" and cb
      ="\<lparr>cb_level = 0, cb_s = [open2 (pt 0 0) (pt 1 0), open2 (pt 1 0) (pt 2 0), open2 (pt 2 0) (pt 0 0)],
         cb_count = 3\<rparr>"]
  by (simp add: scan_def scan_init_def match_a_def match_b_def eval_simps)

text \<open>
  Witness for C3: the chain \<open>(0,0), (1,0)\<close> and the segment from \<open>(1,0)\<close> to \<open>(0,0)\<close>.
\<close>

theorem C3_close_witness:
  "addSegment (pt 1 0) (pt 0 0) \<lparr>cb_level = 0, cb_s = [open2 (pt 0 0) (pt 1 0)], cb_count = 1\<rparr>
     = \<lparr>cb_level = 0,
        cb_s = [\<lparr>head = pt 1 0, mid = [pt 0 0], tail = pt 1 0, closed_flag = True\<rparr>],
        cb_count = 1\<rparr>
   \<and> length (points_of \<lparr>head = pt 1 0, mid = [pt 0 0], tail = pt 1 0, closed_flag = True\<rparr>) = 3"
  using C3_close[where i=0 and cb="\<lparr>cb_level = 0, cb_s = [open2 (pt 0 0) (pt 1 0)], cb_count = 1\<rparr>"
      and a="pt 1 0" and b="pt 0 0"]
  by (auto simp: eval_simps points_of_def)


lemmas addSegment_eval = addSegments_def addSegment_def scan_def scan_init_def match_a_def
  match_b_def merge_seqs_def remove_seq_def new_ContourBuilder_def prepend_node_def
  append_node_def close_chain_def splice_def reverseList_def eval_simps

text \<open>
  Counterexample to C7 as stated: three segments around a triangle leave one closed
  chain; a fourth segment that starts at the chain's head point is prepended to it.
\<close>

theorem C7_counterexample:
  "addSegments [(pt 0 0, pt 1 0), (pt 1 0, pt 1 1), (pt 1 1, pt 0 0)] (new_ContourBuilder 0)
     = \<lparr>cb_level = 0,
        cb_s = [\<lparr>head = pt 1 1, mid = [pt 0 0, pt 1 0], tail = pt 1 1, closed_flag = True\<rparr>],
        cb_count = 1\<rparr>
   \<and> addSegment (pt 1 1) (pt 5 5)
       \<lparr>cb_level = 0,
        cb_s = [\<lparr>head = pt 1 1, mid = [pt 0 0, pt 1 0], tail = pt 1 1, closed_flag = True\<rparr>],
        cb_count = 1\<rparr>
     = \<lparr>cb_level = 0,
        cb_s = [\<lparr>head = pt 5 5, mid = [pt 1 1, pt 0 0, pt 1 0], tail = pt 1 1, closed_flag = True\<rparr>],
        cb_count = 1\<rparr>"
  by (simp add: addSegment_eval)

text \<open>
  Witness for the amended C7: the closed chain of the counterexample and a segment away
  from it.
\<close>

theorem C7_unmatched_unchanged_witness:
  "\<lparr>head = pt 1 1, mid = [pt 0 0, pt 1 0], tail = pt 1 1, closed_flag = True\<rparr>
     \<in> set (cb_s (addSegment (pt 7 7) (pt 8 8)
          \<lparr>cb_level = 0,
           cb_s = [\<lparr>head = pt 1 1, mid = [pt 0 0, pt 1 0], tail = pt 1 1, closed_flag = True\<rparr>],
           cb_count = 1\<rparr>))"
  using C7_unmatched_unchanged[where a="pt 7 7" and b="pt 8 8"
      and c="\<lparr>head = pt 1 1, mid = [pt 0 0, pt 1 0], tail = pt 1 1, closed_flag = True\<rparr>"
      and cb="\<lparr>cb_level = 0,
           cb_s = [\<lparr>head = pt 1 1, mid = [pt 0 0, pt 1 0], tail = pt 1 1, closed_flag = True\<rparr>],
           cb_count = 1\<rparr>"]
  by (simp add: eval_simps)

text \<open>
  Witness for C2, a tail-tail join: the chains \<open>(0,0), (1,0)\<close> and \<open>(3,0), (2,0)\<close> and
  the segment from \<open>(1,0)\<close> to \<open>(2,0)\<close>.
\<close>

theorem C2_merge_witness:
  "\<exists>S. points_of S = [pt 3 0, pt 2 0, pt 1 0, pt 0 0] \<and> \<not> closed_flag S
     \<and> addSegment (pt 1 0) (pt 2 0)
          \<lparr>cb_level = 0, cb_s = [open2 (pt 0 0) (pt 1 0), open2 (pt 3 0) (pt 2 0)], cb_count = 2\<rparr>
        = \<lparr>cb_level = 0, cb_s = [S], cb_count = 1\<rparr>"
  using C2_merge[where a="pt 1 0" and b="pt 2 0" and i=0 and j=1
      and cb="\<lparr>cb_level = 0, cb_s = [open2 (pt 0 0) (pt 1 0), open2 (pt 3 0) (pt 2 0)], cb_count = 2\<rparr>"]
  by (simp add: eval_simps points_of_def)

text \<open>
  Witness for C4 on the square from \<open>(0,0)\<close> to \<open>(4,4)\<close>. From \<open>(1,0)\<close> on the bottom
  edge (index 3) to \<open>(4,3)\<close> on the right edge (index 2, raised to 6) the corners for 4,
  5 and 6 are inserted: bottom left, top left, top right. From \<open>(3,4)\<close> on the top
  edge (index 1) back to \<open>(0,1)\<close> on the left edge (index 0, raised to 4) the corners
  for 2, 3 and 4 are inserted: top right, bottom right, bottom left.
\<close>

theorem C4_corners_witness:
  "stitch bd4 \<lparr>pl_points = [pt 0 1, pt 1 0], pl_level = 0, pl_k = 0\<rparr>
     [\<lparr>pl_points = [pt 4 3, pt 3 4], pl_level = 0, pl_k = 0\<rparr>]
   = Inr \<lparr>pl_points = [pt 3 4, pt 4 4, pt 4 0, pt 0 0, pt 0 1, pt 1 0,
                         pt 0 0, pt 0 4, pt 4 4, pt 4 3, pt 3 4],
          pl_level = 0, pl_k = 0\<rparr>"
proof -
  have u: "[4..6] = [4, 5, (6::int)]" "[2..4] = [2, 3, (4::int)]"
    by (simp_all add: upto.simps)
  show ?thesis
    using C4_corners[of "\<lparr>pl_points = [pt 0 1, pt 1 0], pl_level = 0, pl_k = 0\<rparr>"
        "[\<lparr>pl_points = [pt 4 3, pt 3 4], pl_level = 0, pl_k = 0\<rparr>]" bd4]
    by (simp add: closed_up_def corners_between_def edge_index_def code_def closeEnough_def
        eval_simps u signed_modulo_int_def)
qed

text \<open>
  Counterexample to C6 as stated: on the square from \<open>(0,0)\<close> to \<open>(4,4)\<close>, one chain
  cuts off the bottom left corner and another the top right corner. The two chains are
  not connected, and the result is a single polyline through both.
\<close>

theorem C6_counterexample:
  "contourList_level bd4 0
     (addSegments [(pt 0 1, pt 1 0), (pt 4 3, pt 3 4)] (new_ContourBuilder (1/2)))
   = Inr [\<lparr>pl_points = [pt 3 4, pt 4 4, pt 4 0, pt 0 0, pt 0 1, pt 1 0,
                         pt 0 0, pt 0 4, pt 4 4, pt 4 3, pt 3 4],
           pl_level = 1/2, pl_k = 0\<rparr>]"
proof -
  have u: "[4..6] = [4, 5, (6::int)]" "[2..4] = [2, 3, (4::int)]"
    by (simp_all add: upto.simps)
  show ?thesis
    by (simp add: addSegment_eval contourList_level_def close_unclosed_def chain_polyline_def
        points_of_def compare_def code_def closeEnough_def connect_def corners_loop_eq corner_def
        u signed_modulo_int_def)
qed

lemma mset_two: "mset cs = mset [a, b] \<Longrightarrow> cs = [a, b] \<or> cs = [b, a]"
proof -
  assume m: "mset cs = mset [a, b]"
  then have "length cs = 2" by (metis length_Cons list.size(3) mset_eq_length numeral_2_eq_2)
  then obtain x y where cs: "cs = [x, y]"
    by (metis (no_types, opaque_lifting) One_nat_def Suc_1 length_0_conv length_Suc_conv)
  with m show ?thesis by (auto simp: add_eq_conv_ex)
qed

text \<open>
  Witness for the amended C6: the builder of the counterexample. The chain with head
  \<open>(0,1)\<close> on the left edge comes before the chain with head \<open>(4,3)\<close> on the right
  edge, whatever their order in the chain list.
\<close>

theorem C6_single_polyline_witness:
  "contourList_level bd4 0
     \<lparr>cb_level = 1/2, cb_s = [open2 (pt 4 3) (pt 3 4), open2 (pt 0 1) (pt 1 0)], cb_count = 2\<rparr>
   = Inr [\<lparr>pl_points =
             closed_up bd4 [points_of (open2 (pt 0 1) (pt 1 0)), points_of (open2 (pt 4 3) (pt 3 4))],
           pl_level = 1/2, pl_k = 0\<rparr>]
   \<and> set (points_of (open2 (pt 4 3) (pt 3 4)))
       \<subseteq> set (closed_up bd4 [points_of (open2 (pt 0 1) (pt 1 0)), points_of (open2 (pt 4 3) (pt 3 4))])"
proof -
  let ?a = "open2 (pt 4 3) (pt 3 4)" and ?b = "open2 (pt 0 1) (pt 1 0)"
  let ?cb = "\<lparr>cb_level = 1/2, cb_s = [?a, ?b], cb_count = 2\<rparr>"
  from C6_single_polyline[of ?cb bd4 0] obtain cs where cs:
    "mset cs = mset [?a, ?b]" "sorted_wrt (\<lambda>u v. code_le bd4 (head u) (head v)) cs"
    "contourList_level bd4 0 ?cb =
       Inr (if cs = [] then []
            else [\<lparr>pl_points = closed_up bd4 (map points_of cs), pl_level = 1/2, pl_k = 0\<rparr>])"
    "set (points_of ?a) \<subseteq> set (closed_up bd4 (map points_of cs))"
    by auto
  have "\<not> code_le bd4 (pt 4 3) (pt 0 1)"
    by (simp add: code_le_def code_def closeEnough_def eval_simps)
  with mset_two[OF cs(1)] cs(2) have "cs = [?b, ?a]" by auto
  with cs(3,4) show ?thesis by simp
qed

text \<open>
  Witness for C9: no levels, no triangles, and two triangles without a crossing.
\<close>

theorem C9_empty_witness:
  "buildImplied (\<lambda>t l. if t = (0::nat) then Some (pt 0 l, pt 1 l) else None) bd4 [] [0, 1] = Inr []
   \<and> buildImplied (\<lambda>t l. if t = (0::nat) then Some (pt 0 l, pt 1 l) else None) bd4 [1, 2] [] = Inr []
   \<and> buildImplied (\<lambda>t l. if t = (0::nat) then Some (pt 0 l, pt 1 l) else None) bd4 [1, 2] [1, 2] = Inr []"
  using C9_empty[where intersectAt="\<lambda>t l. if t = (0::nat) then Some (pt 0 l, pt 1 l) else None"
      and bd=bd4 and levels="[]" and triangles="[0, 1]"]
    C9_empty[where intersectAt="\<lambda>t l. if t = (0::nat) then Some (pt 0 l, pt 1 l) else None"
      and bd=bd4 and levels="[1, 2]" and triangles="[]"]
    C9_empty[where intersectAt="\<lambda>t l. if t = (0::nat) then Some (pt 0 l, pt 1 l) else None"
      and bd=bd4 and levels="[1, 2]" and triangles="[1, 2]"]
  by simp

lemma links_Cons: "xs \<noteq> [] \<Longrightarrow> links (x # xs) = add_mset {x, hd xs} (links xs)"
  by (cases xs) auto

lemma links_append:
  "xs \<noteq> [] \<Longrightarrow> ys \<noteq> [] \<Longrightarrow> links (xs @ ys) = add_mset {last xs, hd ys} (links xs + links ys)"
proof (induction xs rule: links.induct)
  case (1 u v r)
  then show ?case by simp
next
  case (2 u)
  then show ?case by (simp add: links_Cons)
next
  case 3
  then show ?case by simp
qed

lemma links_snoc: "xs \<noteq> [] \<Longrightarrow> links (xs @ [y]) = add_mset {last xs, y} (links xs)"
  by (simp add: links_append)

lemma links_rev: "links (rev xs) = links xs"
proof (induction xs rule: links.induct)
  case (1 u v r)
  have "links (rev (u # v # r)) = links (rev (v # r) @ [u])" by simp
  also have "\<dots> = add_mset {last (rev (v # r)), u} (links (rev (v # r)))"
    by (rule links_snoc) simp
  also have "last (rev (v # r)) = v" by simp
  finally show ?case using 1 by (simp add: insert_commute)
qed simp_all

lemma links_subset: "e \<in># links xs \<Longrightarrow> e \<subseteq> set xs \<and> e \<noteq> {}"
  by (induction xs rule: links.induct) auto

lemma links_cover: "x \<in> set xs \<Longrightarrow> 2 \<le> length xs \<Longrightarrow> \<exists>e \<in># links xs. x \<in> e"
proof (induction xs rule: links.induct)
  case (1 u v r)
  show ?case
  proof (cases "x = u \<or> x = v")
    case True
    then show ?thesis by auto
  next
    case False
    with 1 have "x \<in> set (v # r)" "2 \<le> length (v # r)" by (auto simp: Suc_le_eq)
    with 1 show ?thesis by auto
  qed
qed simp_all

lemma deg_empty [simp]: "deg {#} q = 0"
  by (simp add: deg_def)

lemma deg_add_mset [simp]: "deg (add_mset e E) q = (if q \<in> e then Suc (deg E q) else deg E q)"
  by (simp add: deg_def)

lemma deg_union [simp]: "deg (E + F) q = deg E q + deg F q"
  by (simp add: deg_def)

lemma deg_zero: "q \<notin> set xs \<Longrightarrow> deg (links xs) q = 0"
  by (induction xs rule: links.induct) auto

lemma deg_hd: "distinct xs \<Longrightarrow> 2 \<le> length xs \<Longrightarrow> deg (links xs) (hd xs) = 1"
proof (cases xs rule: links.cases)
  case (1 u v r)
  assume "distinct xs"
  with 1 have "u \<notin> set (v # r)" by auto
  with 1 show ?thesis by (simp add: deg_zero)
qed simp_all

lemma deg_last: "distinct xs \<Longrightarrow> 2 \<le> length xs \<Longrightarrow> deg (links xs) (last xs) = 1"
  using deg_hd[of "rev xs"] by (simp add: links_rev hd_rev)

lemma deg_interior:
  "q \<in> set xs \<Longrightarrow> q \<noteq> hd xs \<Longrightarrow> q \<noteq> last xs \<Longrightarrow> 2 \<le> deg (links xs) q"
proof (induction xs rule: links.induct)
  case (1 u v r)
  show ?case
  proof (cases "q = v")
    case True
    with 1(4) have "r \<noteq> []" by auto
    then obtain w r' where "r = w # r'" by (cases r) auto
    with True show ?thesis by simp
  next
    case False
    with 1 have "q \<in> set (v # r)" "q \<noteq> hd (v # r)" "q \<noteq> last (v # r)" by (auto split: if_splits)
    from 1(1)[OF this] show ?thesis by (simp add: le_Suc_eq)
  qed
qed simp_all

lemma deg_closed:
  assumes "q \<in> set (ys @ [t])" and "ys \<noteq> []"
  shows "2 \<le> deg (links (t # ys @ [t])) q"
proof (cases "q = t")
  case True
  have "links (t # ys @ [t]) = add_mset {t, hd ys} (links (ys @ [t]))"
    using assms(2) by (simp add: links_Cons hd_append)
  also have "links (ys @ [t]) = add_mset {last ys, t} (links ys)"
    using assms(2) by (rule links_snoc)
  finally show ?thesis using True by simp
next
  case False
  with assms(1) have "q \<in> set (t # ys @ [t])" "q \<noteq> hd (t # ys @ [t])" "q \<noteq> last (t # ys @ [t])"
    by auto
  then show ?thesis by (rule deg_interior)
qed

lemma set_verts: "shape c \<Longrightarrow> set (verts c) = set (points_of c)"
  by (auto simp: shape_def verts_def points_of_def)

lemma verts_nonempty: "verts c \<noteq> []"
  by (simp add: verts_def points_of_def)

lemma tail_in_verts: "tail c \<in> set (verts c)"
  by (simp add: verts_def points_of_def)

lemma head_in_verts: "shape c \<Longrightarrow> head c \<in> set (verts c)"
  by (simp add: set_verts) (simp add: points_of_def)

lemma chain_links_subset: "shape c \<Longrightarrow> e \<in># chain_links c \<Longrightarrow> e \<subseteq> set (verts c) \<and> e \<noteq> {}"
  using links_subset[of e "points_of c"] by (simp add: chain_links_def set_verts)

lemma chain_links_cover: "shape c \<Longrightarrow> q \<in> set (verts c) \<Longrightarrow> \<exists>e \<in># chain_links c. q \<in> e"
  using links_cover[of q "points_of c"] by (simp add: chain_links_def set_verts) (simp add: points_of_def)

lemma deg_chain_zero: "shape c \<Longrightarrow> q \<notin> set (verts c) \<Longrightarrow> deg (chain_links c) q = 0"
  by (simp add: chain_links_def set_verts deg_zero)

lemma deg_chain_closed:
  assumes "shape c" and "closed_flag c" and "q \<in> set (verts c)"
  shows "2 \<le> deg (chain_links c) q"
proof -
  from assms(1,2) have h: "head c = tail c" "mid c \<noteq> []" by (auto simp: shape_def)
  have "points_of c = tail c # mid c @ [tail c]" by (simp add: points_of_def h)
  moreover have "q \<in> set (mid c @ [tail c])" using assms(2,3) by (simp add: verts_def)
  ultimately show ?thesis using deg_closed[of q "mid c" "tail c"] h(2) by (simp add: chain_links_def)
qed

lemma deg_chain_open_interior:
  assumes "\<not> closed_flag c" and "q \<in> set (verts c)" and "q \<noteq> head c" and "q \<noteq> tail c"
  shows "2 \<le> deg (chain_links c) q"
proof -
  have "q \<in> set (points_of c)" "q \<noteq> hd (points_of c)" "q \<noteq> last (points_of c)"
    using assms by (auto simp: verts_def points_of_def)
  then show ?thesis unfolding chain_links_def by (rule deg_interior)
qed

lemma deg_chain_open_ends:
  assumes "\<not> closed_flag c" and "distinct (verts c)"
  shows "deg (chain_links c) (head c) = 1" and "deg (chain_links c) (tail c) = 1"
proof -
  have d: "distinct (points_of c)" "2 \<le> length (points_of c)"
    using assms by (auto simp: verts_def points_of_def)
  have "hd (points_of c) = head c" "last (points_of c) = tail c" by (auto simp: points_of_def)
  with deg_hd[OF d] deg_last[OF d] show "deg (chain_links c) (head c) = 1"
    "deg (chain_links c) (tail c) = 1"
    by (simp_all add: chain_links_def)
qed

lemma open_head_neq_tail: "\<not> closed_flag c \<Longrightarrow> distinct (verts c) \<Longrightarrow> head c \<noteq> tail c"
  by (auto simp: verts_def points_of_def)

text \<open>Sums over a multiset of chains.\<close>

lemma all_links_add [simp]: "all_links (add_mset c M) = chain_links c + all_links M"
  by (simp add: all_links_def)

lemma all_verts_add [simp]: "all_verts (add_mset c M) = mset (verts c) + all_verts M"
  by (simp add: all_verts_def)

lemma all_links_empty [simp]: "all_links {#} = {#}"
  by (simp add: all_links_def)

lemma all_verts_empty [simp]: "all_verts {#} = {#}"
  by (simp add: all_verts_def)

lemma in_all_verts: "q \<in># all_verts M \<longleftrightarrow> (\<exists>c \<in># M. q \<in> set (verts c))"
  by (induction M) auto

lemma in_all_links: "e \<in># all_links M \<longleftrightarrow> (\<exists>c \<in># M. e \<in># chain_links c)"
  by (induction M) auto

lemma all_links_subset:
  "\<forall>c \<in># M. shape c \<Longrightarrow> e \<in># all_links M \<Longrightarrow> e \<subseteq> set_mset (all_verts M) \<and> e \<noteq> {}"
  using chain_links_subset by (fastforce simp: in_all_links in_all_verts)

lemma deg_all_links_zero:
  assumes "\<forall>c \<in># M. shape c" and "q \<notin># all_verts M"
  shows "deg (all_links M) q = 0"
proof -
  have "\<forall>e \<in># all_links M. q \<notin> e"
    using all_links_subset[OF assms(1)] assms(2) by blast
  then show ?thesis by (simp add: deg_def)
qed

text \<open>Consequences of the invariant for one chain of the store.\<close>

lemma Inv_shape: "Inv M E \<Longrightarrow> c \<in># M \<Longrightarrow> shape c"
  by (simp add: Inv_def shape_def)

lemma Inv_split:
  assumes "Inv (add_mset c M0) E"
  shows "E = chain_links c + all_links M0" and "distinct (verts c)"
    and "set (verts c) \<inter> set_mset (all_verts M0) = {}"
    and "\<forall>q. count (all_verts M0) q \<le> 1"
    and "shape c" and "\<forall>c' \<in># M0. shape c'"
proof -
  from assms have cnt: "\<And>q. count (mset (verts c)) q + count (all_verts M0) q \<le> 1"
    and E: "all_links (add_mset c M0) = E"
    and sh: "\<forall>c'\<in>#add_mset c M0. closed_flag c' \<longrightarrow> head c' = tail c' \<and> mid c' \<noteq> []"
    by (auto simp: Inv_def)
  from E show "E = chain_links c + all_links M0" by simp
  from cnt have "\<And>q. count (mset (verts c)) q \<le> 1" by (meson add_leD1)
  then have "count (mset (verts c)) q = (if q \<in> set (verts c) then 1 else 0)" for q
    using count_greater_zero_iff[of "mset (verts c)" q]
    by (cases "q \<in> set (verts c)") (auto simp: le_Suc_eq count_eq_zero_iff)
  then show "distinct (verts c)" by (simp add: distinct_count_atmost_1)
  show "set (verts c) \<inter> set_mset (all_verts M0) = {}"
  proof (rule ccontr)
    assume "set (verts c) \<inter> set_mset (all_verts M0) \<noteq> {}"
    then obtain q where "q \<in> set (verts c)" "q \<in># all_verts M0" by auto
    then have "1 \<le> count (mset (verts c)) q" "1 \<le> count (all_verts M0) q"
      by (simp_all add: Suc_le_eq count_greater_zero_iff)
    with cnt[of q] show False by simp
  qed
  from cnt show "\<forall>q. count (all_verts M0) q \<le> 1" by (meson add_leD2)
  from sh show "shape c" "\<forall>c' \<in># M0. shape c'" by (auto simp: shape_def)
qed

lemma Inv_deg:
  assumes "Inv M E" and "c \<in># M" and "q \<in> set (verts c)"
  shows "deg E q = deg (chain_links c) q"
proof -
  from assms(2) obtain M0 where M: "M = add_mset c M0" by (meson multi_member_split)
  note s = Inv_split[OF assms(1)[unfolded M]]
  from s(3) assms(3) have "q \<notin># all_verts M0" by auto
  with deg_all_links_zero[OF s(6)] have "deg (all_links M0) q = 0" by simp
  with s(1) show ?thesis by simp
qed

lemma Inv_end:
  assumes "Inv M E" and "c \<in># M" and "q \<in> set (verts c)" and "deg E q \<le> 1"
  shows "\<not> closed_flag c \<and> (q = head c \<or> q = tail c)"
proof -
  have d: "deg (chain_links c) q \<le> 1" using Inv_deg[OF assms(1-3)] assms(4) by simp
  have sh: "shape c" using assms(1,2) by (rule Inv_shape)
  have "\<not> closed_flag c" using deg_chain_closed[OF sh _ assms(3)] d by auto
  moreover have "q = head c \<or> q = tail c"
    using deg_chain_open_interior[OF \<open>\<not> closed_flag c\<close> assms(3)] d by auto
  ultimately show ?thesis by simp
qed

lemma Inv_vertices:
  assumes "Inv M E"
  shows "\<Union>(set_mset E) = set_mset (all_verts M)"
proof -
  have sh: "\<forall>c \<in># M. shape c" using assms by (simp add: Inv_shape)
  have E: "E = all_links M" using assms by (simp add: Inv_def)
  show ?thesis
  proof (intro equalityI subsetI)
    fix q assume "q \<in> \<Union>(set_mset E)"
    then obtain e where "e \<in># all_links M" "q \<in> e" using E by auto
    with all_links_subset[OF sh] show "q \<in># all_verts M" by blast
  next
    fix q assume "q \<in># all_verts M"
    then obtain c where c: "c \<in># M" "q \<in> set (verts c)" by (auto simp: in_all_verts)
    with chain_links_cover sh obtain e where "e \<in># chain_links c" "q \<in> e" by blast
    with c(1) have "e \<in># all_links M" by (auto simp: in_all_links)
    with \<open>q \<in> e\<close> E show "q \<in> \<Union>(set_mset E)" by auto
  qed
qed

lemma pointsEqual_refl: "pointsEqual q q"
  by (simp add: pointsEqual_def EPSILON_def)

lemma InvI:
  assumes "E' = chain_links c' + all_links M0" and "distinct (verts c')"
    and "set (verts c') \<inter> set_mset (all_verts M0) = {}"
    and "\<forall>q. count (all_verts M0) q \<le> 1"
    and "shape c'" and "\<forall>c \<in># M0. shape c"
  shows "Inv (add_mset c' M0) E'"
proof -
  have "count (mset (verts c')) q + count (all_verts M0) q \<le> 1" for q
  proof (cases "q \<in> set (verts c')")
    case True
    with assms(3) have "q \<notin># all_verts M0" by auto
    then have "count (all_verts M0) q = 0" by (simp add: count_eq_zero_iff)
    moreover have "count (mset (verts c')) q = 1"
      using assms(2) True by (simp add: distinct_count_atmost_1)
    ultimately show ?thesis by simp
  next
    case False
    then have z: "count (mset (verts c')) q = 0" by simp
    show ?thesis unfolding z using assms(4) by simp
  qed
  with assms(1,5,6) show ?thesis by (auto simp: Inv_def shape_def)
qed

lemma Inv_rest: "Inv (add_mset c M0) E \<Longrightarrow> Inv M0 (all_links M0)"
  using Inv_split(4,6)[of c M0 E] by (auto simp: Inv_def shape_def)

lemma Inv_count: "Inv M E \<Longrightarrow> \<forall>q. count (all_verts M) q \<le> 1"
  by (simp add: Inv_def)

lemma matches_iff:
  assumes "Inv M E" and "c \<in># M" and "exact E q"
  shows "matches q c \<longleftrightarrow> q = head c \<or> q = tail c"
    and "pointsEqual q (head c) \<longleftrightarrow> q = head c"
    and "pointsEqual q (tail c) \<longleftrightarrow> q = tail c"
proof -
  have sh: "shape c" using assms(1,2) by (rule Inv_shape)
  have "head c \<in># all_verts M" "tail c \<in># all_verts M"
    using assms(2) head_in_verts[OF sh] tail_in_verts[of c] by (auto simp: in_all_verts)
  then have "head c \<in> \<Union>(set_mset E)" "tail c \<in> \<Union>(set_mset E)"
    using Inv_vertices[OF assms(1)] by auto
  with assms(3) show "pointsEqual q (head c) \<longleftrightarrow> q = head c"
    "pointsEqual q (tail c) \<longleftrightarrow> q = tail c"
    by (auto simp: exact_def pointsEqual_refl)
  then show "matches q c \<longleftrightarrow> q = head c \<or> q = tail c" by (simp add: matches_def)
qed

lemma unmatched_fresh:
  assumes "Inv (mset cs) E" and "exact E q" and "deg E q \<le> 1" and "first_match q cs = None"
  shows "q \<notin># all_verts (mset cs)"
proof
  assume "q \<in># all_verts (mset cs)"
  then obtain c where c: "c \<in> set cs" "q \<in> set (verts c)" by (auto simp: in_all_verts)
  with Inv_end[OF assms(1) _ c(2) assms(3)] have "q = head c \<or> q = tail c" by simp
  with matches_iff(1)[OF assms(1) _ assms(2), of c] c(1) have "matches q c" by simp
  with assms(4) c(1) show False by (simp add: first_match_None)
qed

lemma matched_end:
  assumes "Inv (mset cs) E" and "exact E q" and "deg E q \<le> 1" and "first_match q cs = Some i"
  shows "i < length cs" and "\<not> closed_flag (cs ! i)"
    and "q = head (cs ! i) \<or> q = tail (cs ! i)"
    and "pointsEqual q (head (cs ! i)) \<longleftrightarrow> q = head (cs ! i)"
    and "head (cs ! i) \<noteq> tail (cs ! i)"
proof -
  from assms(4) show i: "i < length cs" by (simp add: first_match_Some)
  then have m: "cs ! i \<in># mset cs" by simp
  from assms(4) have "matches q (cs ! i)" by (simp add: first_match_Some)
  with matches_iff[OF assms(1) m assms(2)] show e: "q = head (cs ! i) \<or> q = tail (cs ! i)"
    and "pointsEqual q (head (cs ! i)) \<longleftrightarrow> q = head (cs ! i)" by simp_all
  have sh: "shape (cs ! i)" using assms(1) m by (rule Inv_shape)
  from e have "q \<in> set (verts (cs ! i))" using head_in_verts[OF sh] tail_in_verts by auto
  from Inv_end[OF assms(1) m this assms(3)] show o: "\<not> closed_flag (cs ! i)" by simp
  from m obtain M0 where "mset cs = add_mset (cs ! i) M0" by (meson multi_member_split)
  with assms(1) have "distinct (verts (cs ! i))" using Inv_split(2) by metis
  with o show "head (cs ! i) \<noteq> tail (cs ! i)" by (rule open_head_neq_tail)
qed

lemma nth1_split:
  assumes "i < length cs"
  shows "\<exists>M0. mset cs = add_mset (cs ! i) M0 \<and> (\<forall>S. mset (cs[i := S]) = add_mset S M0)"
proof -
  have "mset cs = add_mset (cs ! i) (mset cs - {#cs ! i#})" using assms by simp
  moreover have "\<forall>S. mset (cs[i := S]) = add_mset S (mset cs - {#cs ! i#})"
    using assms by (simp add: mset_update)
  ultimately show ?thesis by blast
qed

lemma mset_remove_nth:
  "i < length xs \<Longrightarrow> mset (take i xs @ drop (Suc i) xs) = mset xs - {#xs ! i#}"
proof -
  assume "i < length xs"
  then have "xs = take i xs @ xs ! i # drop (Suc i) xs" by (simp add: id_take_nth_drop)
  then have "mset xs = add_mset (xs ! i) (mset (take i xs @ drop (Suc i) xs))"
    by (metis mset.simps(2) mset_append union_mset_add_mset_right)
  then show ?thesis by simp
qed

lemma nth2_split:
  assumes "i < length cs" and "j < length cs" and "i \<noteq> j"
  shows "\<exists>M0. mset cs = add_mset (cs ! i) (add_mset (cs ! j) M0)
     \<and> (\<forall>S. mset (take j (cs[i := S]) @ drop (Suc j) (cs[i := S])) = add_mset S M0)
     \<and> (\<forall>S. mset (take i (cs[j := S]) @ drop (Suc i) (cs[j := S])) = add_mset S M0)"
proof -
  let ?M0 = "mset cs - {#cs ! i#} - {#cs ! j#}"
  have "cs ! j \<in># mset (cs[i := cs ! j])" using assms by (metis length_list_update nth_list_update_neq nth_mem_mset)
  have ji: "cs ! j \<in># mset cs - {#cs ! i#}"
  proof -
    have "mset (take i cs @ drop (Suc i) cs) = mset cs - {#cs ! i#}"
      using assms(1) by (rule mset_remove_nth)
    moreover have "cs ! j \<in> set (take i cs @ drop (Suc i) cs)"
      using nth_in_remove[of j cs i] assms by simp
    ultimately show ?thesis by (metis set_mset_mset)
  qed
  have "mset cs = add_mset (cs ! i) (mset cs - {#cs ! i#})" using assms(1) by simp
  also have "mset cs - {#cs ! i#} = add_mset (cs ! j) ?M0" using ji by (metis insert_DiffM)
  finally have a: "mset cs = add_mset (cs ! i) (add_mset (cs ! j) ?M0)" .
  have b: "mset (take j (cs[i := S]) @ drop (Suc j) (cs[i := S])) = add_mset S ?M0" for S
  proof -
    have "mset (take j (cs[i := S]) @ drop (Suc j) (cs[i := S]))
        = mset (cs[i := S]) - {#(cs[i := S]) ! j#}"
      using assms(2) by (intro mset_remove_nth) simp
    also have "\<dots> = add_mset S (mset cs - {#cs ! i#}) - {#cs ! j#}"
      using assms by (simp add: mset_update)
    also have "\<dots> = add_mset S ?M0" using ji by simp
    finally show ?thesis .
  qed
  have ij: "cs ! i \<in># mset cs - {#cs ! j#}"
  proof -
    have "mset (take j cs @ drop (Suc j) cs) = mset cs - {#cs ! j#}"
      using assms(2) by (rule mset_remove_nth)
    moreover have "cs ! i \<in> set (take j cs @ drop (Suc j) cs)"
      using nth_in_remove[of i cs j] assms by simp
    ultimately show ?thesis by (metis set_mset_mset)
  qed
  have c: "mset (take i (cs[j := S]) @ drop (Suc i) (cs[j := S])) = add_mset S ?M0" for S
  proof -
    have "mset (take i (cs[j := S]) @ drop (Suc i) (cs[j := S]))
        = mset (cs[j := S]) - {#(cs[j := S]) ! i#}"
      using assms(1) by (intro mset_remove_nth) simp
    also have "\<dots> = add_mset S (mset cs - {#cs ! j#}) - {#cs ! i#}"
      using assms by (simp add: mset_update)
    also have "\<dots> = add_mset S (mset cs - {#cs ! j#} - {#cs ! i#})" using ij by simp
    also have "mset cs - {#cs ! j#} - {#cs ! i#} = ?M0" by (simp add: add_mset_commute)
    finally show ?thesis .
  qed
  from a b c show ?thesis by blast
qed

lemma open_verts: "\<not> closed_flag c \<Longrightarrow> verts c = points_of c"
  by (simp add: verts_def)

lemma open_shape: "\<not> closed_flag c \<Longrightarrow> shape c"
  by (simp add: shape_def)

lemma points_of_hd_last [simp]: "hd (points_of c) = head c" "last (points_of c) = tail c"
  by (simp_all add: points_of_def)

lemma points_of_ne [simp]: "points_of c \<noteq> []"
  by (simp add: points_of_def)

lemma step_new:
  assumes inv: "Inv (mset cs) E" and ab: "a \<noteq> b"
    and fa: "a \<notin># all_verts (mset cs)" and fb: "b \<notin># all_verts (mset cs)"
  shows "Inv (mset (\<lparr>head = a, mid = [], tail = b, closed_flag = False\<rparr> # cs)) (add_mset {a, b} E)"
proof -
  let ?c = "\<lparr>head = a, mid = [], tail = b, closed_flag = False\<rparr>"
  have "Inv (add_mset ?c (mset cs)) (add_mset {a, b} E)"
  proof (rule InvI)
    show "add_mset {a, b} E = chain_links ?c + all_links (mset cs)"
      using inv by (simp add: chain_links_def points_of_def Inv_def)
    show "distinct (verts ?c)" using ab by (simp add: verts_def points_of_def)
    show "set (verts ?c) \<inter> set_mset (all_verts (mset cs)) = {}"
      using fa fb by (simp add: verts_def points_of_def)
    show "\<forall>q. count (all_verts (mset cs)) q \<le> 1" using inv by (rule Inv_count)
    show "shape ?c" by (simp add: shape_def)
    show "\<forall>c \<in># mset cs. shape c" using inv by (simp add: Inv_shape)
  qed
  then show ?thesis by simp
qed

lemma step_extend:
  assumes inv: "Inv (mset cs) E" and ab: "a \<noteq> b"
    and i: "i < length cs" and op: "\<not> closed_flag (cs ! i)"
    and a: "a = head (cs ! i) \<or> a = tail (cs ! i)" and ht: "head (cs ! i) \<noteq> tail (cs ! i)"
    and fb: "b \<notin># all_verts (mset cs)"
  shows "Inv (mset (cs[i := (if a = head (cs ! i) then prepend_node b (cs ! i)
                              else append_node b (cs ! i))])) (add_mset {a, b} E)"
proof -
  let ?c = "cs ! i"
  let ?c' = "if a = head ?c then prepend_node b ?c else append_node b ?c"
  from nth1_split[OF i] obtain M0 where
    M0: "mset cs = add_mset ?c M0" "\<And>S. mset (cs[i := S]) = add_mset S M0" by blast
  note s = Inv_split[OF inv[unfolded M0(1)]]
  have op': "\<not> closed_flag ?c'" using op by (simp add: prepend_node_def append_node_def)
  have bc: "b \<notin> set (points_of ?c)" "b \<notin># all_verts M0"
    using fb op by (auto simp: M0(1) open_verts)
  have l: "chain_links ?c' = add_mset {a, b} (chain_links ?c)"
    using a ht
    by (auto simp: chain_links_def points_of_prepend points_of_append links_Cons links_snoc
        insert_commute)
  have v: "mset (verts ?c') = add_mset b (mset (verts ?c))"
    using op op' by (auto simp: open_verts points_of_prepend points_of_append)
  have "Inv (add_mset ?c' M0) (add_mset {a, b} E)"
  proof (rule InvI)
    show "add_mset {a, b} E = chain_links ?c' + all_links M0" using s(1) l by simp
    show "distinct (verts ?c')"
      using s(2) op bc(1) op' by (auto simp: open_verts points_of_prepend points_of_append)
    have "set (verts ?c') = insert b (set (verts ?c))" using v by (metis set_mset_add_mset_insert set_mset_mset)
    with s(3) bc(2) show "set (verts ?c') \<inter> set_mset (all_verts M0) = {}" by auto
    show "\<forall>q. count (all_verts M0) q \<le> 1" by (rule s(4))
    show "shape ?c'" using op' by (rule open_shape)
    show "\<forall>c \<in># M0. shape c" by (rule s(6))
  qed
  then show ?thesis by (simp add: M0(2))
qed

lemma step_close:
  assumes inv: "Inv (mset cs) E" and ab: "a \<noteq> b"
    and i: "i < length cs" and op: "\<not> closed_flag (cs ! i)"
    and a: "a = head (cs ! i) \<or> a = tail (cs ! i)"
    and b: "b = head (cs ! i) \<or> b = tail (cs ! i)"
  shows "Inv (mset (cs[i := close_chain (cs ! i)])) (add_mset {a, b} E)"
proof -
  let ?c = "cs ! i"
  from nth1_split[OF i] obtain M0 where
    M0: "mset cs = add_mset ?c M0" "\<And>S. mset (cs[i := S]) = add_mset S M0" by blast
  note s = Inv_split[OF inv[unfolded M0(1)]]
  have e: "{a, b} = {tail ?c, head ?c}" using a b ab by auto
  have l: "chain_links (close_chain ?c) = add_mset {a, b} (chain_links ?c)"
    by (simp add: chain_links_def points_of_close links_Cons e)
  have v: "verts (close_chain ?c) = verts ?c"
    using op by (simp add: verts_def close_chain_def points_of_def)
  have "Inv (add_mset (close_chain ?c) M0) (add_mset {a, b} E)"
  proof (rule InvI)
    show "add_mset {a, b} E = chain_links (close_chain ?c) + all_links M0" using s(1) l by simp
    show "distinct (verts (close_chain ?c))" using s(2) v by simp
    show "set (verts (close_chain ?c)) \<inter> set_mset (all_verts M0) = {}" using s(3) v by simp
    show "\<forall>q. count (all_verts M0) q \<le> 1" by (rule s(4))
    show "shape (close_chain ?c)" by (simp add: shape_def close_chain_def)
    show "\<forall>c \<in># M0. shape c" by (rule s(6))
  qed
  then show ?thesis by (simp add: M0(2))
qed

lemma step_merge:
  assumes inv: "Inv (mset (cb_s cb)) E"
    and i: "i < length (cb_s cb)" and j: "j < length (cb_s cb)" and ij: "i \<noteq> j"
    and oi: "\<not> closed_flag (cb_s cb ! i)" and oj: "\<not> closed_flag (cb_s cb ! j)"
    and a: "a = head (cb_s cb ! i) \<or> a = tail (cb_s cb ! i)"
    and b: "b = head (cb_s cb ! j) \<or> b = tail (cb_s cb ! j)"
    and pA: "pA \<longleftrightarrow> a = head (cb_s cb ! i)" and pB: "pB \<longleftrightarrow> b = head (cb_s cb ! j)"
  shows "Inv (mset (cb_s (merge_seqs pA pB i j cb))) (add_mset {a, b} E)"
proof -
  let ?cs = "cb_s cb"
  let ?ci = "?cs ! i" and ?cj = "?cs ! j"
  from merge_seqs_result[OF ij, of pA pB cb] obtain S where
    S: "points_of S =
             (if \<not> pA \<and> \<not> pB then points_of ?cj @ rev (points_of ?ci)
              else if pA \<and> \<not> pB then points_of ?cj @ points_of ?ci
              else if pA \<and> pB then rev (points_of ?ci) @ points_of ?cj
              else points_of ?ci @ points_of ?cj)"
      "closed_flag S = closed_flag (if pB then ?ci else ?cj)"
      "merge_seqs pA pB i j cb =
              cb\<lparr>cb_s := (if pB then take j (?cs[i := S]) @ drop (Suc j) (?cs[i := S])
                          else take i (?cs[j := S]) @ drop (Suc i) (?cs[j := S])),
                 cb_count := cb_count cb - 1\<rparr>"
    by blast
  from nth2_split[OF i j ij] obtain M0 where
    M0: "mset ?cs = add_mset ?ci (add_mset ?cj M0)"
      "\<And>S. mset (take j (?cs[i := S]) @ drop (Suc j) (?cs[i := S])) = add_mset S M0"
      "\<And>S. mset (take i (?cs[j := S]) @ drop (Suc i) (?cs[j := S])) = add_mset S M0"
    by blast
  have res: "mset (cb_s (merge_seqs pA pB i j cb)) = add_mset S M0"
    by (simp add: S(3) M0(2,3) del: mset_append)
  note s1 = Inv_split[OF inv[unfolded M0(1)]]
  note s2 = Inv_split[OF Inv_rest[OF inv[unfolded M0(1)]]]
  have oS: "\<not> closed_flag S" using S(2) oi oj by simp
  have vi: "verts ?ci = points_of ?ci" and vj: "verts ?cj = points_of ?cj"
    using oi oj by (simp_all add: open_verts)
  have dis: "set (points_of ?ci) \<inter> set (points_of ?cj) = {}"
    using s1(3) by (auto simp: vi vj)
  have ta: "\<not> pA \<Longrightarrow> a = tail ?ci" and tb: "\<not> pB \<Longrightarrow> b = tail ?cj"
    using a b pA pB by auto
  have ha: "pA \<Longrightarrow> a = head ?ci" and hb: "pB \<Longrightarrow> b = head ?cj"
    using pA pB by auto
  have l: "chain_links S = add_mset {a, b} (chain_links ?ci + chain_links ?cj)"
  proof (cases pA; cases pB)
    assume p: "pA" "pB"
    then have "links (points_of S) = add_mset {head ?ci, head ?cj} (links (points_of ?ci) + links (points_of ?cj))"
      by (simp add: S(1) links_append links_rev last_rev)
    with ha[OF p(1)] hb[OF p(2)] show ?thesis by (simp add: chain_links_def)
  next
    assume p: "pA" "\<not> pB"
    then have "links (points_of S) = add_mset {tail ?cj, head ?ci} (links (points_of ?cj) + links (points_of ?ci))"
      by (simp add: S(1) links_append)
    with ha[OF p(1)] tb[OF p(2)] show ?thesis by (simp add: chain_links_def insert_commute)
  next
    assume p: "\<not> pA" "pB"
    then have "links (points_of S) = add_mset {tail ?ci, head ?cj} (links (points_of ?ci) + links (points_of ?cj))"
      by (simp add: S(1) links_append)
    with ta[OF p(1)] hb[OF p(2)] show ?thesis by (simp add: chain_links_def)
  next
    assume p: "\<not> pA" "\<not> pB"
    then have "links (points_of S) = add_mset {tail ?cj, tail ?ci} (links (points_of ?cj) + links (points_of ?ci))"
      by (simp add: S(1) links_append links_rev hd_rev)
    with ta[OF p(1)] tb[OF p(2)] show ?thesis by (simp add: chain_links_def insert_commute)
  qed
  have "Inv (add_mset S M0) (add_mset {a, b} E)"
  proof (rule InvI)
    show "add_mset {a, b} E = chain_links S + all_links M0" using s1(1) l by simp
    have "distinct (points_of S)" using s1(2) s2(2) dis by (auto simp: S(1) vi vj)
    then show "distinct (verts S)" using oS by (simp add: open_verts)
    have "set (verts S) = set (points_of ?ci) \<union> set (points_of ?cj)"
      using oS by (auto simp: S(1) open_verts)
    with s1(3) s2(3) show "set (verts S) \<inter> set_mset (all_verts M0) = {}"
      by (auto simp: vi vj)
    show "\<forall>q. count (all_verts M0) q \<le> 1" by (rule s2(4))
    show "shape S" using oS by (rule open_shape)
    show "\<forall>c \<in># M0. shape c" by (rule s2(6))
  qed
  then show ?thesis by (simp add: res)
qed

lemma Inv_addSegment:
  assumes inv: "Inv (mset (cb_s cb)) E" and ab: "a \<noteq> b"
    and da: "deg E a \<le> 1" and db: "deg E b \<le> 1" and ea: "exact E a" and eb: "exact E b"
  shows "Inv (mset (cb_s (addSegment a b cb))) (add_mset {a, b} E)"
proof -
  let ?cs = "cb_s cb"
  show ?thesis
  proof (cases "first_match a ?cs")
    case None
    note fa = this
    have a_fresh: "a \<notin># all_verts (mset ?cs)" using inv ea da fa by (rule unmatched_fresh)
    show ?thesis
    proof (cases "first_match b ?cs")
      case None
      have b_fresh: "b \<notin># all_verts (mset ?cs)" using inv eb db None by (rule unmatched_fresh)
      have "cb_s (addSegment a b cb) = \<lparr>head = a, mid = [], tail = b, closed_flag = False\<rparr> # ?cs"
        by (simp add: addSegment_def scan_ma scan_mb fa None Let_def)
      with step_new[OF inv ab a_fresh b_fresh] show ?thesis by simp
    next
      case (Some j)
      note m = matched_end[OF inv eb db Some]
      have "cb_s (addSegment a b cb) =
          ?cs[j := (if b = head (?cs ! j) then prepend_node a (?cs ! j) else append_node a (?cs ! j))]"
        using m(4) by (simp add: addSegment_def scan_ma scan_mb scan_prependB fa Some Let_def)
      with step_extend[OF inv ab[symmetric] m(1,2,3,5) a_fresh] show ?thesis
        by (simp add: insert_commute)
    qed
  next
    case (Some i)
    note fa = this
    note ma = matched_end[OF inv ea da fa]
    show ?thesis
    proof (cases "first_match b ?cs")
      case None
      have b_fresh: "b \<notin># all_verts (mset ?cs)" using inv eb db None by (rule unmatched_fresh)
      have "cb_s (addSegment a b cb) =
          ?cs[i := (if a = head (?cs ! i) then prepend_node b (?cs ! i) else append_node b (?cs ! i))]"
        using ma(4) by (simp add: addSegment_def scan_ma scan_mb scan_prependA fa None Let_def)
      with step_extend[OF inv ab ma(1,2,3,5) b_fresh] show ?thesis by simp
    next
      case (Some j)
      note mb = matched_end[OF inv eb db Some]
      show ?thesis
      proof (cases "i = j")
        case True
        have "cb_s (addSegment a b cb) = ?cs[i := close_chain (?cs ! i)]"
          using True by (simp add: addSegment_def scan_ma scan_mb fa Some Let_def)
        with step_close[OF inv ab ma(1,2,3)] mb(3) True show ?thesis by simp
      next
        case False
        have "addSegment a b cb =
            merge_seqs (pointsEqual a (head (?cs ! i))) (pointsEqual b (head (?cs ! j))) i j cb"
          using False
          by (simp add: addSegment_def scan_ma scan_mb scan_prependA scan_prependB fa Some Let_def)
        with step_merge[OF inv ma(1) mb(1) False ma(2) mb(2) ma(3) mb(3) ma(4) mb(4)]
        show ?thesis by simp
      qed
    qed
  qed
qed

lemma addSegments_snoc:
  "addSegments (segs @ [(a, b)]) cb = addSegment a b (addSegments segs cb)"
  by (simp add: addSegments_def)

lemma seg_links_snoc: "seg_links (segs @ [(a, b)]) = add_mset {a, b} (seg_links segs)"
  by (simp add: seg_links_def)

lemma deg_seg_links: "deg (seg_links segs) q = length (filter (\<lambda>(a, b). a = q \<or> b = q) segs)"
  by (induction segs) (auto simp: seg_links_def)

lemma seg_links_points:
  "q \<in> \<Union>(set_mset (seg_links segs)) \<longleftrightarrow> (\<exists>s \<in> set segs. q = fst s \<or> q = snd s)"
  by (induction segs) (auto simp: seg_links_def)

lemma simple_segments_butlast: "simple_segments (segs @ [s]) \<Longrightarrow> simple_segments segs"
proof -
  assume s: "simple_segments (segs @ [s])"
  have "length (filter (\<lambda>(a, b). a = q \<or> b = q) segs) \<le> 2"
    if "t \<in> set segs" "q \<in> {fst t, snd t}" for t q
  proof -
    have "length (filter (\<lambda>(a, b). a = q \<or> b = q) segs)
        \<le> length (filter (\<lambda>(a, b). a = q \<or> b = q) (segs @ [s]))" by simp
    also have "\<dots> \<le> 2"
    proof -
      have "t \<in> set (segs @ [s])" using that(1) by simp
      with s that(2) show ?thesis unfolding simple_segments_def by blast
    qed
    finally show ?thesis .
  qed
  moreover have "\<forall>(a, b) \<in> set segs. a \<noteq> b" using s unfolding simple_segments_def by auto
  moreover have "\<forall>s \<in> set segs. \<forall>t \<in> set segs. \<forall>p \<in> {fst s, snd s}. \<forall>q \<in> {fst t, snd t}.
          pointsEqual p q \<longrightarrow> p = q"
    using s unfolding simple_segments_def by auto
  ultimately show ?thesis unfolding simple_segments_def by blast
qed

lemma Inv_addSegments:
  "simple_segments segs \<Longrightarrow>
     Inv (mset (cb_s (addSegments segs (new_ContourBuilder l)))) (seg_links segs)"
proof (induction segs rule: rev_induct)
  case Nil
  show ?case by (simp add: addSegments_def new_ContourBuilder_def seg_links_def Inv_def)
next
  case (snoc s segs)
  obtain a b where s: "s = (a, b)" by (cases s)
  from snoc.prems have simple: "simple_segments segs" by (rule simple_segments_butlast)
  note inv = snoc.IH[OF simple]
  from snoc.prems have ab: "a \<noteq> b" by (auto simp: simple_segments_def s)
  have d: "deg (seg_links (segs @ [(a, b)])) q \<le> 2" if "q \<in> {a, b}" for q
  proof -
    have "(a, b) \<in> set (segs @ [(a, b)])" "q \<in> {fst (a, b), snd (a, b)}" using that by auto
    with snoc.prems show ?thesis unfolding simple_segments_def s deg_seg_links by blast
  qed
  from d[of a] have da: "deg (seg_links segs) a \<le> 1" by (simp add: seg_links_snoc)
  from d[of b] have db: "deg (seg_links segs) b \<le> 1" by (simp add: seg_links_snoc)
  have ex: "pointsEqual p q \<longrightarrow> p = q"
    if "p \<in> {a, b}" "q \<in> \<Union>(set_mset (seg_links segs))" for p q
  proof -
    from that(2) obtain t where t: "t \<in> set segs" "q \<in> {fst t, snd t}"
      unfolding seg_links_points by auto
    have "s \<in> set (segs @ [s])" "t \<in> set (segs @ [s])" using t(1) by auto
    moreover have "p \<in> {fst s, snd s}" using that(1) s by simp
    ultimately show ?thesis using snoc.prems t(2) unfolding simple_segments_def by blast
  qed
  then have ea: "exact (seg_links segs) a" and eb: "exact (seg_links segs) b"
    by (auto simp: exact_def)
  from Inv_addSegment[OF inv ab da db ea eb] show ?case
    by (simp add: s addSegments_snoc seg_links_snoc)
qed

lemma Inv_closure:
  assumes "Inv M E" and "c \<in># M" and "e \<in># E" and "e \<inter> set (verts c) \<noteq> {}"
  shows "e \<subseteq> set (verts c)"
proof -
  from assms(2) obtain M0 where M: "M = add_mset c M0" by (meson multi_member_split)
  note s = Inv_split[OF assms(1)[unfolded M]]
  from assms(3) s(1) consider "e \<in># chain_links c" | "e \<in># all_links M0" by auto
  then show ?thesis
  proof cases
    case 1
    with chain_links_subset[OF s(5)] show ?thesis by simp
  next
    case 2
    with all_links_subset[OF s(6)] have "e \<subseteq> set_mset (all_verts M0)" by simp
    with s(3) assms(4) show ?thesis by auto
  qed
qed

lemma Inv_chain_links:
  assumes "Inv M E" and "c \<in># M"
  shows "chain_links c = filter_mset (\<lambda>e. e \<subseteq> set (verts c)) E"
proof -
  from assms(2) obtain M0 where M: "M = add_mset c M0" by (meson multi_member_split)
  note s = Inv_split[OF assms(1)[unfolded M]]
  have "filter_mset (\<lambda>e. e \<subseteq> set (verts c)) (chain_links c) = chain_links c"
    using chain_links_subset[OF s(5)] by (simp add: filter_mset_eq_conv)
  moreover have "filter_mset (\<lambda>e. e \<subseteq> set (verts c)) (all_links M0) = {#}"
  proof -
    have "\<not> e \<subseteq> set (verts c)" if "e \<in># all_links M0" for e
      using all_links_subset[OF s(6) that] s(3) by auto
    then show ?thesis by simp
  qed
  ultimately show ?thesis by (simp add: s(1))
qed

lemma links_connected:
  assumes "\<forall>e \<in># links xs. e \<inter> S \<noteq> {} \<longrightarrow> e \<subseteq> S" and "q \<in> set xs" and "q \<in> S"
  shows "set xs \<subseteq> S"
  using assms
proof (induction xs arbitrary: q rule: links.induct)
  case (1 u v r)
  from 1(2) have uv: "u \<in> S \<longleftrightarrow> v \<in> S" by auto
  from 1(2) have rest: "\<forall>e \<in># links (v # r). e \<inter> S \<noteq> {} \<longrightarrow> e \<subseteq> S" by simp
  show ?case
  proof (cases "q = u")
    case True
    with 1(4) uv have "v \<in> S" by simp
    from 1(1)[OF rest _ this] have "set (v # r) \<subseteq> S" by simp
    with True 1(4) show ?thesis by simp
  next
    case False
    with 1(3) have "q \<in> set (v # r)" by simp
    from 1(1)[OF rest this 1(4)] have "set (v # r) \<subseteq> S" .
    with uv show ?thesis by simp
  qed
qed simp_all

lemma Inv_same_component:
  assumes "Inv M1 E" and "Inv M2 E" and "c1 \<in># M1" and "c2 \<in># M2"
    and "q \<in> set (verts c1)" and "q \<in> set (verts c2)"
  shows "set (verts c1) \<subseteq> set (verts c2)"
proof -
  have sh: "shape c1" using assms(1,3) by (rule Inv_shape)
  have sub: "chain_links c1 \<subseteq># E"
    using assms(1,3) by (metis Inv_chain_links multiset_filter_subset)
  have "\<forall>e \<in># links (points_of c1). e \<inter> set (verts c2) \<noteq> {} \<longrightarrow> e \<subseteq> set (verts c2)"
  proof (intro ballI impI)
    fix e assume "e \<in># links (points_of c1)" "e \<inter> set (verts c2) \<noteq> {}"
    moreover from this(1) sub have "e \<in># E" by (metis chain_links_def mset_subset_eqD)
    ultimately show "e \<subseteq> set (verts c2)" using Inv_closure[OF assms(2,4)] by blast
  qed
  from links_connected[OF this, of q] assms(5,6) show ?thesis by (simp add: set_verts[OF sh])
qed

lemma Inv_partner:
  assumes "Inv M1 E" and "Inv M2 E" and "c1 \<in># M1"
  shows "\<exists>c2 \<in># M2. set (verts c2) = set (verts c1)"
proof -
  have "tail c1 \<in># all_verts M1" using assms(3) tail_in_verts by (auto simp: in_all_verts)
  then have "tail c1 \<in># all_verts M2"
    using Inv_vertices[OF assms(1)] Inv_vertices[OF assms(2)] by auto
  then obtain c2 where c2: "c2 \<in># M2" "tail c1 \<in> set (verts c2)" by (auto simp: in_all_verts)
  from Inv_same_component[OF assms(1,2,3) c2(1) tail_in_verts c2(2)]
    Inv_same_component[OF assms(2,1) c2(1) assms(3) c2(2) tail_in_verts]
  have "set (verts c2) = set (verts c1)" by auto
  with c2(1) show ?thesis by blast
qed

lemma Inv_closed_iff:
  assumes "Inv M E" and "c \<in># M"
  shows "closed_flag c \<longleftrightarrow> (\<forall>q \<in> set (verts c). 2 \<le> deg E q)"
proof
  assume "closed_flag c"
  with deg_chain_closed[OF Inv_shape[OF assms]] Inv_deg[OF assms]
  show "\<forall>q \<in> set (verts c). 2 \<le> deg E q" by simp
next
  assume all: "\<forall>q \<in> set (verts c). 2 \<le> deg E q"
  show "closed_flag c"
  proof (rule ccontr)
    assume o: "\<not> closed_flag c"
    from assms(2) obtain M0 where M: "M = add_mset c M0" by (meson multi_member_split)
    note s = Inv_split[OF assms(1)[unfolded M]]
    have "deg E (tail c) = 1"
      using deg_chain_open_ends(2)[OF o s(2)] Inv_deg[OF assms tail_in_verts] by simp
    with all tail_in_verts[of c] show False by auto
  qed
qed

lemma Inv_open_ends:
  assumes "Inv M E" and "c \<in># M" and "\<not> closed_flag c"
  shows "{head c, tail c} = {q \<in> set (verts c). deg E q = 1}"
proof -
  from assms(2) obtain M0 where M: "M = add_mset c M0" by (meson multi_member_split)
  note s = Inv_split[OF assms(1)[unfolded M]]
  have h: "head c \<in> set (verts c)" using head_in_verts[OF s(5)] .
  have "deg E (head c) = 1" "deg E (tail c) = 1"
    using deg_chain_open_ends[OF assms(3) s(2)] Inv_deg[OF assms(1,2) tail_in_verts]
      Inv_deg[OF assms(1,2) h] by simp_all
  moreover have "q = head c \<or> q = tail c" if "q \<in> set (verts c)" "deg E q = 1" for q
    using deg_chain_open_interior[OF assms(3) that(1)] Inv_deg[OF assms(1,2) that(1)] that(2)
    by auto
  ultimately show ?thesis using h tail_in_verts[of c] by auto
qed

lemma Inv_summary:
  assumes "Inv M1 E" and "Inv M2 E" and "c1 \<in># M1" and "c2 \<in># M2"
    and "set (verts c2) = set (verts c1)"
  shows "summary c2 = summary c1"
proof -
  have f: "closed_flag c2 = closed_flag c1"
    using Inv_closed_iff[OF assms(1,3)] Inv_closed_iff[OF assms(2,4)] assms(5) by simp
  have l: "chain_links c2 = chain_links c1"
    using Inv_chain_links[OF assms(1,3)] Inv_chain_links[OF assms(2,4)] assms(5) by simp
  have "{head c2, tail c2} = {head c1, tail c1}" if "\<not> closed_flag c1"
    using Inv_open_ends[OF assms(1,3) that] Inv_open_ends[OF assms(2,4)] f that assms(5) by simp
  with f l show ?thesis by (auto simp: summary_def)
qed

lemma Inv_summary_subset:
  assumes "Inv M1 E" and "Inv M2 E"
  shows "summary ` set_mset M1 \<subseteq> summary ` set_mset M2"
proof
  fix d assume "d \<in> summary ` set_mset M1"
  then obtain c1 where c1: "c1 \<in># M1" "d = summary c1" by auto
  from Inv_partner[OF assms c1(1)] obtain c2 where
    c2: "c2 \<in># M2" "set (verts c2) = set (verts c1)" by blast
  from Inv_summary[OF assms c1(1) c2] c1(2) c2(1) show "d \<in> summary ` set_mset M2"
    by (metis imageI)
qed

lemma Inv_distinct:
  assumes "Inv (mset cs) E"
  shows "distinct cs" and "inj_on summary (set cs)"
proof -
  have disj: "set (verts c) \<inter> set (verts c') = {}" if "mset cs = add_mset c (add_mset c' M0)"
    for c c' M0
  proof -
    note s = Inv_split[OF assms[unfolded that]]
    from s(3) show ?thesis by (auto simp: in_all_verts)
  qed
  show "distinct cs"
  proof (rule ccontr)
    assume "\<not> distinct cs"
    then obtain xs ys zs y where "cs = xs @ [y] @ ys @ [y] @ zs"
      using not_distinct_decomp by blast
    then have "mset cs = add_mset y (add_mset y (mset (xs @ ys @ zs)))" by simp
    from disj[OF this] verts_nonempty[of y] show False by simp
  qed
  show "inj_on summary (set cs)"
  proof (rule inj_onI, rule ccontr)
    fix c c' assume c: "c \<in> set cs" "c' \<in> set cs" "summary c = summary c'" "c \<noteq> c'"
    then have "c' \<in># mset cs - {#c#}" by (simp add: in_diff_count)
    then obtain M0 where "mset cs - {#c#} = add_mset c' M0" by (meson multi_member_split)
    then have "mset cs = add_mset c (add_mset c' M0)" using c(1) by (metis insert_DiffM set_mset_mset)
    from disj[OF this] have d: "set (verts c) \<inter> set (verts c') = {}" .
    have sh: "shape c" "shape c'" using assms c(1,2) by (auto intro: Inv_shape)
    from chain_links_cover[OF sh(1) tail_in_verts] obtain e where
      e: "e \<in># chain_links c" "tail c \<in> e" by blast
    with c(3) have "e \<in># chain_links c'" by (simp add: summary_def)
    with chain_links_subset[OF sh(2)] e(2) have "tail c \<in> set (verts c')" by auto
    with d tail_in_verts[of c] show False by auto
  qed
qed

lemma Inv_unique:
  assumes "Inv (mset cs1) E" and "Inv (mset cs2) E"
  shows "image_mset summary (mset cs1) = image_mset summary (mset cs2)"
proof -
  have "distinct (map summary cs1)" "distinct (map summary cs2)"
    using Inv_distinct[OF assms(1)] Inv_distinct[OF assms(2)] by (simp_all add: distinct_map)
  moreover have "set (map summary cs1) = set (map summary cs2)"
    using Inv_summary_subset[OF assms] Inv_summary_subset[OF assms(2,1)] by auto
  ultimately have "mset (map summary cs1) = mset (map summary cs2)"
    using set_eq_iff_mset_eq_distinct[of "map summary cs1" "map summary cs2"] by blast
  then show ?thesis by simp
qed

lemma open_ends_summary:
  "open_ends cb = image_mset (\<lambda>d. fst (snd d)) (filter_mset (\<lambda>d. \<not> fst d) (image_mset summary (mset (cb_s cb))))"
proof -
  have "image_mset (\<lambda>d. fst (snd d)) (filter_mset (\<lambda>d. \<not> fst d) (image_mset summary (mset (cb_s cb))))
      = image_mset (\<lambda>c. fst (snd (summary c))) (filter_mset (\<lambda>c. \<not> fst (summary c)) (mset (cb_s cb)))"
    by (simp add: image_mset_filter_mset_swap[symmetric] multiset.map_comp comp_def)
  also have "\<dots> = image_mset (\<lambda>c. fst (snd (summary c))) (filter_mset (\<lambda>c. \<not> closed_flag c) (mset (cb_s cb)))"
    by (simp add: summary_def)
  also have "\<dots> = image_mset (\<lambda>c. {head c, tail c}) (filter_mset (\<lambda>c. \<not> closed_flag c) (mset (cb_s cb)))"
    by (rule image_mset_cong) (simp add: summary_def)
  finally show ?thesis by (simp add: open_ends_def)
qed

lemma closed_loops_summary:
  "closed_loops cb = image_mset (\<lambda>d. snd (snd d)) (filter_mset fst (image_mset summary (mset (cb_s cb))))"
proof -
  have "image_mset (\<lambda>d. snd (snd d)) (filter_mset fst (image_mset summary (mset (cb_s cb))))
      = image_mset (\<lambda>c. snd (snd (summary c))) (filter_mset (\<lambda>c. fst (summary c)) (mset (cb_s cb)))"
    by (simp add: image_mset_filter_mset_swap[symmetric] multiset.map_comp comp_def)
  then show ?thesis by (simp add: closed_loops_def summary_def)
qed


text \<open>
  C1, as amended (order insensitivity for simple inputs). For a simple list of segments
  and any permutation of it, feeding the segments one by one to a fresh builder leaves
  the same multiset of pairs of end points of open chains and the same multiset of
  closed loops.
\<close>

theorem C1_order_insensitive:
  assumes "simple_segments xs" and "mset xs = mset ys"
  shows "open_ends (addSegments xs (new_ContourBuilder l))
           = open_ends (addSegments ys (new_ContourBuilder l))
       \<and> closed_loops (addSegments xs (new_ContourBuilder l))
           = closed_loops (addSegments ys (new_ContourBuilder l))"
proof -
  have s: "set xs = set ys" using assms(2) by (metis set_mset_mset)
  have len: "length (filter P ys) = length (filter P xs)" for P :: "point \<times> point \<Rightarrow> bool"
    using assms(2) by (metis mset_filter size_mset)
  have "simple_segments ys"
    using assms(1) unfolding simple_segments_def s len by simp
  from Inv_addSegments[OF this, of l] Inv_addSegments[OF assms(1), of l]
  have "Inv (mset (cb_s (addSegments ys (new_ContourBuilder l)))) (seg_links xs)"
    "Inv (mset (cb_s (addSegments xs (new_ContourBuilder l)))) (seg_links xs)"
    using assms(2) by (simp_all add: seg_links_def)
  from Inv_unique[OF this(2,1)] show ?thesis
    by (simp add: open_ends_summary closed_loops_summary)
qed



text \<open>
  Witness for the amended C1: a triangle and a separate segment, fed in two orders.
\<close>

theorem C1_order_insensitive_witness:
  "open_ends (addSegments [(pt 0 0, pt 1 0), (pt 1 0, pt 1 1), (pt 1 1, pt 0 0), (pt 5 5, pt 6 6)]
       (new_ContourBuilder 0))
     = open_ends (addSegments [(pt 5 5, pt 6 6), (pt 1 1, pt 0 0), (pt 1 0, pt 1 1), (pt 0 0, pt 1 0)]
       (new_ContourBuilder 0))
   \<and> closed_loops (addSegments [(pt 0 0, pt 1 0), (pt 1 0, pt 1 1), (pt 1 1, pt 0 0), (pt 5 5, pt 6 6)]
       (new_ContourBuilder 0))
     = closed_loops (addSegments [(pt 5 5, pt 6 6), (pt 1 1, pt 0 0), (pt 1 0, pt 1 1), (pt 0 0, pt 1 0)]
       (new_ContourBuilder 0))"
proof -
  have s: "simple_segments [(pt 0 0, pt 1 0), (pt 1 0, pt 1 1), (pt 1 1, pt 0 0), (pt 5 5, pt 6 6)]"
    by (simp add: simple_segments_def pointsEqual_def EPSILON_def)
  have m: "mset [(pt 0 0, pt 1 0), (pt 1 0, pt 1 1), (pt 1 1, pt 0 0), (pt 5 5, pt 6 6)]
      = mset [(pt 5 5, pt 6 6), (pt 1 1, pt 0 0), (pt 1 0, pt 1 1), (pt 0 0, pt 1 0)]"
    by simp
  from C1_order_insensitive[OF s m, of 0] show ?thesis .
qed

text \<open>
  Counterexample to C1 as stated: three segments that share the end point \<open>(0,0)\<close>, fed
  in two orders, leave open chains with different pairs of end points.
\<close>

theorem C1_counterexample:
  "mset [(pt 0 0, pt 1 0), (pt 0 0, pt 0 1), (pt 0 0, pt 1 1)]
     = mset [(pt 0 0, pt 1 0), (pt 0 0, pt 1 1), (pt 0 0, pt 0 1)]
   \<and> open_ends (addSegments [(pt 0 0, pt 1 0), (pt 0 0, pt 0 1), (pt 0 0, pt 1 1)] (new_ContourBuilder 0))
       = {#{pt 0 0, pt 1 1}, {pt 0 1, pt 1 0}#}
   \<and> open_ends (addSegments [(pt 0 0, pt 1 0), (pt 0 0, pt 1 1), (pt 0 0, pt 0 1)] (new_ContourBuilder 0))
       = {#{pt 0 0, pt 0 1}, {pt 1 1, pt 1 0}#}
   \<and> {#{pt 0 0, pt 1 1}, {pt 0 1, pt 1 0}#} \<noteq> {#{pt 0 0, pt 0 1}, {pt 1 1, pt 1 0}#}"
proof -
  have "{pt 0 0, pt 1 1} \<in># {#{pt 0 0, pt 1 1}, {pt 0 1, pt 1 0}#}" by simp
  moreover have "{pt 0 0, pt 1 1} \<notin># {#{pt 0 0, pt 0 1}, {pt 1 1, pt 1 0}#}"
    by (auto simp: doubleton_eq_iff)
  ultimately have "{#{pt 0 0, pt 1 1}, {pt 0 1, pt 1 0}#} \<noteq> {#{pt 0 0, pt 0 1}, {pt 1 1, pt 1 0}#}"
    by metis
  then show ?thesis
    by (simp add: open_ends_def addSegment_eval)
qed

section \<open>The linked records implement the chain lists\<close>

text \<open>
  The properties above are stated on chain lists. This part shows that the linked
  records of the source behave as the chain lists do: from a store that represents a
  builder, \<open>addSegment_p\<close> returns (it reads no field of \<^verbatim>\<open>null\<close> and its loops
  end) a store that represents the builder \<open>addSegment\<close> returns, and the walks of
  \<^verbatim>\<open>contourList\<close> read the points and the \<^verbatim>\<open>closed\<close> field of every chain, in the
  order of the list.
\<close>

lemma firstp_simps [simp]: "firstp [] pn = pn" "firstp (b # bs) pn = Some b"
  by (simp_all add: firstp_def)

lemma lastp_simps [simp]: "lastp p0 [] = p0" "lastp p0 (as @ [a]) = Some a"
  by (simp_all add: lastp_def)

lemma lastp_Cons: "lastp p0 (a # as) = lastp (Some a) as"
  by (simp add: lastp_def)

lemma first_simps [simp]: "first [] = None" "first (a # as) = Some a"
  by (simp_all add: first_def)

lemma dseg_Cons: "dseg nx pv p0 (a # as) pn \<longleftrightarrow> pv a = p0 \<and> nx a = firstp as pn \<and> dseg nx pv (Some a) as pn"
  by (simp add: firstp_def)

lemma dseg_append:
  "dseg nx pv p0 (as @ bs) pn \<longleftrightarrow>
     dseg nx pv p0 as (firstp bs pn) \<and> dseg nx pv (lastp p0 as) bs pn"
proof (induction as arbitrary: p0)
  case Nil
  then show ?case by simp
next
  case (Cons a as)
  have "firstp (as @ bs) pn = firstp as (firstp bs pn)" by (cases as) simp_all
  with Cons show ?case by (auto simp: dseg_Cons lastp_Cons simp del: dseg.simps)
qed

lemma dseg_cong:
  "(\<And>a. a \<in> set as \<Longrightarrow> nx' a = nx a \<and> pv' a = pv a) \<Longrightarrow>
     dseg nx' pv' p0 as pn = dseg nx pv p0 as pn"
  by (induction as arbitrary: p0) auto

lemma dseg_rev: "dseg nx pv p0 as pn \<Longrightarrow> dseg pv nx pn (rev as) p0"
proof (induction as arbitrary: p0)
  case Nil
  then show ?case by simp
next
  case (Cons a as)
  then have a: "pv a = p0" "nx a = firstp as pn" and r: "dseg nx pv (Some a) as pn"
    by (simp_all add: dseg_Cons del: dseg.simps)
  from Cons.IH[OF r] have "dseg pv nx pn (rev as) (Some a)" .
  moreover have "dseg pv nx (lastp pn (rev as)) [a] p0"
    using a by (cases as) (simp_all add: lastp_def)
  ultimately show ?case by (simp add: dseg_append del: dseg.simps)
qed

lemma dll_rev: "dll nx pv as \<Longrightarrow> dll pv nx (rev as)"
  by (simp add: dll_def dseg_rev)

lemma dll_cong:
  assumes "\<And>a. a \<in> set as \<Longrightarrow> nx' a = nx a \<and> pv' a = pv a"
  shows "dll nx' pv' as = dll nx pv as"
  unfolding dll_def using dseg_cong[where nx'=nx' and nx=nx and pv'=pv' and pv=pv and as=as, OF assms]
  by simp

lemma dseg_path: "dseg nx pv p0 as None \<Longrightarrow> path nx (first as) as"
proof (induction as arbitrary: p0)
  case Nil
  then show ?case by simp
next
  case (Cons a as)
  then show ?case by (cases as) auto
qed

lemma dll_path: "dll nx pv as \<Longrightarrow> path nx (first as) as"
  by (auto simp: dll_def dseg_path)

lemma dll_prepend:
  assumes "dll nx pv as" and "as \<noteq> []" and "pp \<notin> set as"
  shows "dll (nx(pp := Some (hd as))) (pv(pp := None, hd as := Some pp)) (pp # as)"
proof -
  obtain a as' where as: "as = a # as'" using assms(2) by (cases as) auto
  from assms(1) have d: "distinct (a # as')" and s: "pv a = None" "nx a = firstp as' None"
    "dseg nx pv (Some a) as' None"
    by (simp_all add: dll_def as dseg_Cons del: dseg.simps)
  have "dseg (nx(pp := Some a)) (pv(pp := None, a := Some pp)) (Some a) as' None
      = dseg nx pv (Some a) as' None"
    using d assms(3) by (intro dseg_cong) (auto simp: as)
  with s d assms(3) show ?thesis
    by (auto simp: dll_def as dseg_Cons simp del: dseg.simps)
qed

lemma dll_append1:
  assumes "dll nx pv as" and "as \<noteq> []" and "pp \<notin> set as"
  shows "dll (nx(pp := None, last as := Some pp)) (pv(pp := Some (last as))) (as @ [pp])"
proof -
  from assms have "dll pv nx (rev as)" "rev as \<noteq> []" "pp \<notin> set (rev as)"
    by (simp_all add: dll_rev)
  from dll_prepend[OF this]
  have "dll (pv(pp := Some (last as))) (nx(pp := None, last as := Some pp)) (pp # rev as)"
    using assms(2) by (simp add: hd_rev)
  from dll_rev[OF this] show ?thesis by simp
qed

lemma dll_splice:
  assumes "dll nx pv as" and "dll nx pv bs" and "as \<noteq> []" and "bs \<noteq> []"
    and "set as \<inter> set bs = {}"
  shows "dll (nx(last as := Some (hd bs))) (pv(hd bs := Some (last as))) (as @ bs)"
proof -
  let ?nx = "nx(last as := Some (hd bs))" and ?pv = "pv(hd bs := Some (last as))"
  obtain as' t where as: "as = as' @ [t]" using assms(3) by (metis rev_exhaust)
  obtain h bs' where bs: "bs = h # bs'" using assms(4) by (cases bs) auto
  from assms(1) have da: "distinct as" and
    sa: "dseg nx pv None as' (Some t)" "pv t = lastp None as'"
    by (simp_all add: dll_def as dseg_append)
  from assms(2) have db: "distinct bs" and
    sb: "nx h = firstp bs' None" "dseg nx pv (Some h) bs' None"
    by (simp_all add: dll_def bs dseg_Cons del: dseg.simps)
  have 1: "dseg ?nx ?pv None as' (Some t) = dseg nx pv None as' (Some t)"
    using da assms(5) by (intro dseg_cong) (auto simp: as bs)
  have 2: "dseg ?nx ?pv (Some h) bs' None = dseg nx pv (Some h) bs' None"
    using db assms(5) by (intro dseg_cong) (auto simp: as bs)
  have ht: "h \<noteq> t" using assms(5) by (auto simp: as bs)
  have "dseg ?nx ?pv None ((as' @ [t]) @ h # bs') None"
    using 1 2 sa sb ht by (simp add: as bs dseg_append dseg_Cons lastp_def del: dseg.simps(2))
  moreover have "distinct (as @ bs)" using da db assms(5) by simp
  ultimately show ?thesis by (simp add: dll_def as bs)
qed

text \<open>Unlinking one address, as \<^verbatim>\<open>remove_seq\<close> does.\<close>

lemma dll_remove:
  assumes "dll nx pv (xs @ l # ys)"
  shows "dll (case pv l of Some p \<Rightarrow> nx(p := nx l) | None \<Rightarrow> nx)
             (case nx l of Some n \<Rightarrow> pv(n := pv l) | None \<Rightarrow> pv) (xs @ ys)"
    and "pv l = lastp None xs" and "nx l = firstp ys None"
proof -
  from assms have d: "distinct (xs @ l # ys)"
    and s: "dseg nx pv None xs (Some l)" "pv l = lastp None xs" "nx l = firstp ys None"
      "dseg nx pv (Some l) ys None"
    by (simp_all add: dll_def dseg_append dseg_Cons del: dseg.simps)
  show "pv l = lastp None xs" "nx l = firstp ys None" by (rule s)+
  let ?nx = "case pv l of Some p \<Rightarrow> nx(p := nx l) | None \<Rightarrow> nx"
  let ?pv = "case nx l of Some n \<Rightarrow> pv(n := pv l) | None \<Rightarrow> pv"
  have nx: "?nx = (if xs = [] then nx else nx(last xs := firstp ys None))"
    using s(2,3) by (simp add: lastp_def)
  have pv: "?pv = (case ys of [] \<Rightarrow> pv | y # _ \<Rightarrow> pv(y := lastp None xs))"
    using s(2,3) by (cases ys) (simp_all)
  have lx: "last xs \<notin> set ys" "last xs \<noteq> l" if "xs \<noteq> []"
    using d last_in_set[OF that] by auto
  have A: "dseg ?nx ?pv None xs (firstp ys None)"
  proof (cases xs rule: rev_cases)
    case Nil
    then show ?thesis by simp
  next
    case (snoc xs' x)
    from s(1) have x: "dseg nx pv None xs' (Some x)" "pv x = lastp None xs'"
      by (simp_all add: snoc dseg_append)
    have "dseg ?nx ?pv None xs' (Some x) = dseg nx pv None xs' (Some x)"
      unfolding nx pv using d by (intro dseg_cong) (auto simp: snoc split: list.splits)
    moreover have "?pv x = pv x" unfolding pv using d by (auto simp: snoc split: list.splits)
    moreover have "?nx x = firstp ys None" unfolding nx by (simp add: snoc)
    ultimately show ?thesis using x by (simp add: snoc dseg_append)
  qed
  have B: "dseg ?nx ?pv (lastp None xs) ys None"
  proof (cases ys)
    case Nil
    then show ?thesis by simp
  next
    case (Cons y ys')
    from s(4) have y: "nx y = firstp ys' None" "dseg nx pv (Some y) ys' None"
      by (simp_all add: Cons dseg_Cons del: dseg.simps)
    have "dseg ?nx ?pv (Some y) ys' None = dseg nx pv (Some y) ys' None"
      unfolding nx pv using d lx by (intro dseg_cong) (auto simp: Cons)
    moreover have "?nx y = nx y" unfolding nx using d lx by (auto simp: Cons)
    moreover have "?pv y = lastp None xs" unfolding pv by (simp add: Cons)
    ultimately show ?thesis using y by (simp add: Cons dseg_Cons del: dseg.simps)
  qed
  from A B d show "dll ?nx ?pv (xs @ ys)" by (simp add: dll_def dseg_append)
qed

lemma nxt_upd: "nxt (ns(a \<mapsto> n)) = (nxt ns)(a := n_next n)"
  by (auto simp: nxt_def)

lemma prv_upd: "prv (ns(a \<mapsto> n)) = (prv ns)(a := n_prev n)"
  by (auto simp: prv_def)

lemma nxt_Some: "ns a = Some n \<Longrightarrow> nxt ns a = n_next n"
  by (simp add: nxt_def)

lemma prv_Some: "ns a = Some n \<Longrightarrow> prv ns a = n_prev n"
  by (simp add: prv_def)

lemma chain_rep_frame:
  assumes "\<And>a. a \<in> set as \<Longrightarrow> ns' a = ns a"
    and "s_head sq' = s_head sq" and "s_tail sq' = s_tail sq" and "s_closed sq' = s_closed sq"
  shows "chain_rep ns' sq' as c = chain_rep ns sq as c"
proof -
  have A: "dll (nxt ns') (prv ns') as = dll (nxt ns) (prv ns) as"
    using assms(1) by (intro dll_cong) (simp add: nxt_def prv_def)
  have B: "set as \<subseteq> dom ns' \<longleftrightarrow> set as \<subseteq> dom ns"
    using assms(1) by (auto simp: dom_def)
  have C: "map (\<lambda>a. n_p (the (ns' a))) as = map (\<lambda>a. n_p (the (ns a))) as"
    using assms(1) by simp
  show ?thesis unfolding chain_rep_def A B C assms(2,3,4) by (rule refl)
qed

lemma chain_rep_head:
  assumes "chain_rep ns sq as c"
  shows "\<exists>h. ns (s_head sq) = Some h \<and> n_p h = head c"
proof -
  from assms obtain a as' where as: "as = a # as'" by (cases as) (auto simp: chain_rep_def)
  with assms obtain h where "ns a = Some h" by (auto simp: chain_rep_def)
  moreover from assms have "n_p (the (ns a)) = head c"
    by (auto simp: chain_rep_def as points_of_def)
  ultimately show ?thesis using assms by (auto simp: chain_rep_def as)
qed

lemma chain_rep_tail:
  assumes "chain_rep ns sq as c"
  shows "\<exists>t. ns (s_tail sq) = Some t \<and> n_p t = tail c"
proof -
  from assms obtain as' a where as: "as = as' @ [a]"
    by (cases as rule: rev_cases) (auto simp: chain_rep_def)
  with assms obtain t where "ns a = Some t" by (auto simp: chain_rep_def)
  moreover from assms have "map (\<lambda>a. n_p (the (ns a))) as' @ [n_p (the (ns a))] = (head c # mid c) @ [tail c]"
    by (simp add: chain_rep_def as points_of_def)
  then have "n_p (the (ns a)) = tail c" by (metis append1_eq_conv)
  ultimately show ?thesis using assms by (auto simp: chain_rep_def as)
qed

lemma chain_rep_prepend:
  assumes "chain_rep ns sq as c" and "pp \<notin> set as" and "ns (s_head sq) = Some h"
  shows "chain_rep (ns(pp \<mapsto> \<lparr>n_p = q, n_prev = None, n_next = Some (s_head sq)\<rparr>,
                      s_head sq \<mapsto> h\<lparr>n_prev := Some pp\<rparr>))
           (sq\<lparr>s_head := pp\<rparr>) (pp # as) (prepend_node q c)"
proof -
  let ?ns = "ns(pp \<mapsto> \<lparr>n_p = q, n_prev = None, n_next = Some (s_head sq)\<rparr>,
                s_head sq \<mapsto> h\<lparr>n_prev := Some pp\<rparr>)"
  from assms(1) have r: "dll (nxt ns) (prv ns) as" "set as \<subseteq> dom ns" "as \<noteq> []"
    "s_head sq = hd as" "s_tail sq = last as" "map (\<lambda>a. n_p (the (ns a))) as = points_of c"
    "s_closed sq = closed_flag c"
    by (simp_all add: chain_rep_def)
  have hp: "hd as \<noteq> pp" using assms(2) r(3) by auto
  have "dll (nxt ?ns) (prv ?ns) (pp # as)
      = dll ((nxt ns)(pp := Some (hd as))) ((prv ns)(pp := None, hd as := Some pp)) (pp # as)"
    using assms(3) hp by (intro dll_cong) (auto simp: nxt_def prv_def r(4))
  with dll_prepend[OF r(1,3) assms(2)] have 1: "dll (nxt ?ns) (prv ?ns) (pp # as)" by simp
  have 2: "set (pp # as) \<subseteq> dom ?ns" using r(2) by auto
  have "map (\<lambda>a. n_p (the (?ns a))) as = map (\<lambda>a. n_p (the (ns a))) as"
    using assms(2,3) by (auto simp: r(4))
  then have 3: "map (\<lambda>a. n_p (the (?ns a))) (pp # as) = points_of (prepend_node q c)"
    using hp r(6) by (simp add: points_of_prepend r(4))
  have 4: "last (pp # as) = s_tail sq" using r(3,5) by simp
  from 1 2 3 4 r(7) show ?thesis by (simp add: chain_rep_def prepend_node_def)
qed

lemma chain_rep_append:
  assumes "chain_rep ns sq as c" and "pp \<notin> set as" and "ns (s_tail sq) = Some t"
  shows "chain_rep (ns(pp \<mapsto> \<lparr>n_p = q, n_prev = Some (s_tail sq), n_next = None\<rparr>,
                      s_tail sq \<mapsto> t\<lparr>n_next := Some pp\<rparr>))
           (sq\<lparr>s_tail := pp\<rparr>) (as @ [pp]) (append_node q c)"
proof -
  let ?ns = "ns(pp \<mapsto> \<lparr>n_p = q, n_prev = Some (s_tail sq), n_next = None\<rparr>,
                s_tail sq \<mapsto> t\<lparr>n_next := Some pp\<rparr>)"
  from assms(1) have r: "dll (nxt ns) (prv ns) as" "set as \<subseteq> dom ns" "as \<noteq> []"
    "s_head sq = hd as" "s_tail sq = last as" "map (\<lambda>a. n_p (the (ns a))) as = points_of c"
    "s_closed sq = closed_flag c"
    by (simp_all add: chain_rep_def)
  have lp: "last as \<noteq> pp" using assms(2) r(3) by auto
  have "dll (nxt ?ns) (prv ?ns) (as @ [pp])
      = dll ((nxt ns)(pp := None, last as := Some pp)) ((prv ns)(pp := Some (last as))) (as @ [pp])"
    using assms(3) lp by (intro dll_cong) (auto simp: nxt_def prv_def r(5))
  with dll_append1[OF r(1,3) assms(2)] have 1: "dll (nxt ?ns) (prv ?ns) (as @ [pp])" by simp
  have 2: "set (as @ [pp]) \<subseteq> dom ?ns" using r(2) by auto
  have "map (\<lambda>a. n_p (the (?ns a))) as = map (\<lambda>a. n_p (the (ns a))) as"
    using assms(2,3) by (auto simp: r(5))
  then have 3: "map (\<lambda>a. n_p (the (?ns a))) (as @ [pp]) = points_of (append_node q c)"
    using lp r(6) by (simp add: points_of_append r(5))
  have 4: "hd (as @ [pp]) = s_head sq" using r(3,4) by simp
  from 1 2 3 4 r(7) show ?thesis by (simp add: chain_rep_def append_node_def)
qed

lemma chain_rep_close:
  assumes "chain_rep ns sq as c" and "pp \<notin> set as" and "ns (s_head sq) = Some h"
    and "ns (s_tail sq) = Some t"
  shows "chain_rep (ns(pp \<mapsto> \<lparr>n_p = n_p t, n_prev = None, n_next = Some (s_head sq)\<rparr>,
                      s_head sq \<mapsto> h\<lparr>n_prev := Some pp\<rparr>))
           (sq\<lparr>s_head := pp, s_closed := True\<rparr>) (pp # as) (close_chain c)"
proof -
  from chain_rep_tail[OF assms(1)] assms(4) have t: "n_p t = tail c" by simp
  have "chain_rep (ns(pp \<mapsto> \<lparr>n_p = n_p t, n_prev = None, n_next = Some (s_head sq)\<rparr>,
                      s_head sq \<mapsto> h\<lparr>n_prev := Some pp\<rparr>))
           (sq\<lparr>s_head := pp\<rparr>) (pp # as) (prepend_node (n_p t) c)"
    using assms(1-3) by (rule chain_rep_prepend)
  moreover have "points_of (close_chain c) = points_of (prepend_node (n_p t) c)"
    by (simp add: points_of_prepend points_of_close t)
  moreover have "closed_flag (close_chain c)" by (simp add: close_chain_def)
  ultimately show ?thesis unfolding chain_rep_def by simp
qed

lemma path_cong: "(\<And>a. a \<in> set as \<Longrightarrow> nx' a = nx a) \<Longrightarrow> path nx' p as = path nx p as"
  by (induction as arbitrary: p) auto

lemma reverse_loop_path:
  assumes "path (nxt ns) p as" and "distinct as" and "set as \<subseteq> dom ns"
  shows "reverse_loop ns p = Some (\<lambda>x. if x \<in> set as then map_option swap_links (ns x) else ns x)"
  using assms
proof (induction as arbitrary: ns p)
  case Nil
  then show ?case by (simp add: reverse_loop.simps)
next
  case (Cons a as)
  from Cons.prems obtain n where n: "ns a = Some n" and p: "p = Some a" by auto
  let ?ns = "ns(a \<mapsto> n\<lparr>n_next := n_prev n, n_prev := n_next n\<rparr>)"
  have "path (nxt ns) (n_next n) as" using Cons.prems(1) n by (simp add: nxt_Some)
  moreover have "path (nxt ?ns) (n_next n) as = path (nxt ns) (n_next n) as"
    using Cons.prems(2) by (intro path_cong) (auto simp: nxt_def)
  ultimately have 1: "path (nxt ?ns) (n_next n) as" by simp
  have 2: "distinct as" "set as \<subseteq> dom ?ns" using Cons.prems by auto
  have "reverse_loop ns p = reverse_loop ?ns (n_next n)"
    by (subst reverse_loop.simps) (simp add: p n)
  also have "\<dots> = Some (\<lambda>x. if x \<in> set as then map_option swap_links (?ns x) else ?ns x)"
    using 1 2 by (rule Cons.IH)
  also have "(\<lambda>x. if x \<in> set as then map_option swap_links (?ns x) else ?ns x)
      = (\<lambda>x. if x \<in> set (a # as) then map_option swap_links (ns x) else ns x)"
    using Cons.prems(2) n by (auto simp: fun_eq_iff swap_links_def)
  finally show ?case .
qed

lemma chain_rep_reverse:
  assumes "chain_rep ns sq as c"
  shows "\<exists>ns'. reverse_loop ns (Some (s_head sq)) = Some ns'
           \<and> chain_rep ns' (sq\<lparr>s_head := s_tail sq, s_tail := s_head sq\<rparr>) (rev as) (reverseList c)
           \<and> (\<forall>x. x \<notin> set as \<longrightarrow> ns' x = ns x)"
proof -
  let ?ns = "\<lambda>x. if x \<in> set as then map_option swap_links (ns x) else ns x"
  from assms have r: "dll (nxt ns) (prv ns) as" "set as \<subseteq> dom ns" "as \<noteq> []"
    "s_head sq = hd as" "s_tail sq = last as" "map (\<lambda>a. n_p (the (ns a))) as = points_of c"
    "s_closed sq = closed_flag c"
    by (simp_all add: chain_rep_def)
  have f: "first as = Some (s_head sq)" using r(3,4) by (cases as) auto
  have d: "distinct as" using r(1) by (simp add: dll_def)
  from reverse_loop_path[OF dll_path[OF r(1)] d r(2)] f
  have 1: "reverse_loop ns (Some (s_head sq)) = Some ?ns" by simp
  have al: "\<exists>n. ns a = Some n" if "a \<in> set as" for a using r(2) that by auto
  have "dll (nxt ?ns) (prv ?ns) (rev as) = dll (prv ns) (nxt ns) (rev as)"
    using al by (intro dll_cong) (auto simp: nxt_def prv_def swap_links_def split: option.splits)
  with dll_rev[OF r(1)] have 2: "dll (nxt ?ns) (prv ?ns) (rev as)" by simp
  have 3: "set (rev as) \<subseteq> dom ?ns" using r(2) by (auto simp: dom_def)
  have pp: "n_p (the (map_option swap_links (ns a))) = n_p (the (ns a))" if "a \<in> set as" for a
    using al[OF that] by (auto simp: swap_links_def)
  have m: "map (\<lambda>a. n_p (the (?ns a))) as = map (\<lambda>a. n_p (the (ns a))) as"
    by (rule map_cong[OF refl]) (simp add: pp)
  have "map (\<lambda>a. n_p (the (?ns a))) (rev as) = rev (map (\<lambda>a. n_p (the (?ns a))) as)"
    by (rule rev_map[symmetric])
  also have "\<dots> = rev (points_of c)" by (simp only: m r(6))
  also have "\<dots> = points_of (reverseList c)" by (simp only: points_of_reverseList)
  finally have 4: "map (\<lambda>a. n_p (the (?ns a))) (rev as) = points_of (reverseList c)" .
  have 5: "hd (rev as) = s_tail sq" "last (rev as) = s_head sq"
    using r(3,4,5) by (simp_all add: hd_rev last_rev)
  have 6: "s_head (sq\<lparr>s_head := s_tail sq, s_tail := s_head sq\<rparr>) = hd (rev as)"
    "s_tail (sq\<lparr>s_head := s_tail sq, s_tail := s_head sq\<rparr>) = last (rev as)"
    "s_closed (sq\<lparr>s_head := s_tail sq, s_tail := s_head sq\<rparr>) = closed_flag (reverseList c)"
    "rev as \<noteq> []"
    using 5 r(3,7) by (simp_all add: closed_flag_reverseList)
  have "chain_rep ?ns (sq\<lparr>s_head := s_tail sq, s_tail := s_head sq\<rparr>) (rev as) (reverseList c)"
    unfolding chain_rep_def
    by (intro conjI) (rule 2 3 4 6)+
  moreover have "\<forall>x. x \<notin> set as \<longrightarrow> ?ns x = ns x" by simp
  ultimately show ?thesis using 1 by blast
qed

lemma chain_rep_splice:
  assumes "chain_rep ns su as cu" and "chain_rep ns sv bs cv" and "set as \<inter> set bs = {}"
    and "ns (s_tail su) = Some t" and "ns (s_head sv) = Some h"
  shows "chain_rep (ns(s_tail su \<mapsto> t\<lparr>n_next := Some (s_head sv)\<rparr>,
                      s_head sv \<mapsto> h\<lparr>n_prev := Some (s_tail su)\<rparr>))
           (su\<lparr>s_tail := s_tail sv\<rparr>) (as @ bs) (splice cu cv)"
proof -
  let ?ns = "ns(s_tail su \<mapsto> t\<lparr>n_next := Some (s_head sv)\<rparr>,
                s_head sv \<mapsto> h\<lparr>n_prev := Some (s_tail su)\<rparr>)"
  from assms(1) have ra: "dll (nxt ns) (prv ns) as" "set as \<subseteq> dom ns" "as \<noteq> []"
    "s_head su = hd as" "s_tail su = last as" "map (\<lambda>a. n_p (the (ns a))) as = points_of cu"
    "s_closed su = closed_flag cu"
    by (simp_all add: chain_rep_def)
  from assms(2) have rb: "dll (nxt ns) (prv ns) bs" "set bs \<subseteq> dom ns" "bs \<noteq> []"
    "s_head sv = hd bs" "s_tail sv = last bs" "map (\<lambda>a. n_p (the (ns a))) bs = points_of cv"
    by (simp_all add: chain_rep_def)
  have "last as \<in> set as" "hd bs \<in> set bs" using ra(3) rb(3) by simp_all
  with assms(3) have ne: "last as \<noteq> hd bs" by auto
  have "dll (nxt ?ns) (prv ?ns) (as @ bs)
      = dll ((nxt ns)(last as := Some (hd bs))) ((prv ns)(hd bs := Some (last as))) (as @ bs)"
    using assms(4,5) ne by (intro dll_cong) (auto simp: nxt_def prv_def ra(5) rb(4))
  with dll_splice[OF ra(1) rb(1) ra(3) rb(3) assms(3)]
  have 1: "dll (nxt ?ns) (prv ?ns) (as @ bs)" by simp
  have 2: "set (as @ bs) \<subseteq> dom ?ns" using ra(2) rb(2) by auto
  have "map (\<lambda>a. n_p (the (?ns a))) as = map (\<lambda>a. n_p (the (ns a))) as"
    "map (\<lambda>a. n_p (the (?ns a))) bs = map (\<lambda>a. n_p (the (ns a))) bs"
    using assms(4,5) by auto
  then have 3: "map (\<lambda>a. n_p (the (?ns a))) (as @ bs) = points_of (splice cu cv)"
    using ra(6) rb(6) by (simp add: points_of_splice)
  have 4: "hd (as @ bs) = s_head su" "last (as @ bs) = s_tail sv"
    using ra(3,4) rb(3,5) by simp_all
  have 5: "s_head (su\<lparr>s_tail := s_tail sv\<rparr>) = hd (as @ bs)"
    "s_tail (su\<lparr>s_tail := s_tail sv\<rparr>) = last (as @ bs)"
    "s_closed (su\<lparr>s_tail := s_tail sv\<rparr>) = closed_flag (splice cu cv)"
    "as @ bs \<noteq> []"
    using 4 ra(3,7) by (simp_all add: closed_flag_splice)
  show ?thesis
    unfolding chain_rep_def
    by (intro conjI) (rule 1 2 3 5)+
qed

lemma rep_at_view:
  assumes "rep_at st l as c"
  shows "view st l c"
proof -
  from assms obtain sq where sq: "ps_seqs st l = Some sq" "chain_rep (ps_nodes st) sq as c"
    by (auto simp: rep_at_def)
  from chain_rep_head[OF sq(2)] obtain h where "ps_nodes st (s_head sq) = Some h" "n_p h = head c"
    by blast
  moreover from chain_rep_tail[OF sq(2)] obtain t where
    "ps_nodes st (s_tail sq) = Some t" "n_p t = tail c" by blast
  ultimately show ?thesis using sq(1) unfolding view_def by blast
qed

lemma match_a_p_refines:
  assumes "ps_seqs st l = Some sq0" and "view st l c" and "scan_rel ls m sa" and "ls ! i = l"
  shows "\<exists>m'. match_a_p a st l sq0 m = Some m' \<and> scan_rel ls m' (match_a a i c sa)"
proof -
  from assms(2,1) obtain h t where v: "ps_nodes st (s_head sq0) = Some h" "n_p h = head c"
    "ps_nodes st (s_tail sq0) = Some t" "n_p t = tail c"
    by (auto simp: view_def)
  from assms(3) have n: "p_ma m = None \<longleftrightarrow> ma sa = None" by (simp add: scan_rel_def)
  show ?thesis
  proof (cases "ma sa = None")
    case False
    then obtain y where y: "ma sa = Some y" by auto
    with assms(3) have "p_ma m = Some (ls ! y)" by (simp add: scan_rel_def)
    with y assms(3) show ?thesis by (simp add: match_a_p_def match_a_def)
  next
    case True
    note T = this
    show ?thesis
    proof (cases "pointsEqual a (head c)")
      case True
      with T n assms(3,4) v show ?thesis
        by (simp add: match_a_p_def match_a_def scan_rel_def)
    next
      case False
      note F = this
      show ?thesis
      proof (cases "pointsEqual a (tail c)")
        case True
        with T F n assms(3,4) v show ?thesis
          by (simp add: match_a_p_def match_a_def scan_rel_def)
      next
        case False
        with T F n assms(3,4) v show ?thesis
          by (simp add: match_a_p_def match_a_def scan_rel_def)
      qed
    qed
  qed
qed

lemma match_b_p_refines:
  assumes "ps_seqs st l = Some sq0" and "view st l c" and "scan_rel ls m sa" and "ls ! i = l"
  shows "\<exists>m'. match_b_p b st l sq0 m = Some m' \<and> scan_rel ls m' (match_b b i c sa)"
proof -
  from assms(2,1) obtain h t where v: "ps_nodes st (s_head sq0) = Some h" "n_p h = head c"
    "ps_nodes st (s_tail sq0) = Some t" "n_p t = tail c"
    by (auto simp: view_def)
  from assms(3) have n: "p_mb m = None \<longleftrightarrow> mb sa = None" by (simp add: scan_rel_def)
  show ?thesis
  proof (cases "mb sa = None")
    case False
    then obtain y where y: "mb sa = Some y" by auto
    with assms(3) have "p_mb m = Some (ls ! y)" by (simp add: scan_rel_def)
    with y assms(3) show ?thesis by (simp add: match_b_p_def match_b_def)
  next
    case True
    note T = this
    show ?thesis
    proof (cases "pointsEqual b (head c)")
      case True
      with T n assms(3,4) v show ?thesis
        by (simp add: match_b_p_def match_b_def scan_rel_def)
    next
      case False
      note F = this
      show ?thesis
      proof (cases "pointsEqual b (tail c)")
        case True
        with T F n assms(3,4) v show ?thesis
          by (simp add: match_b_p_def match_b_def scan_rel_def)
      next
        case False
        with T F n assms(3,4) v show ?thesis
          by (simp add: match_b_p_def match_b_def scan_rel_def)
      qed
    qed
  qed
qed

lemma scan_loop_p_refines:
  assumes "list_all2 (view st) ls2 cs2" and "path (snxt (ps_seqs st)) p ls2"
    and "\<forall>j<length ls2. ls ! (k + j) = ls2 ! j" and "scan_rel ls m sa"
  shows "\<exists>m'. scan_loop_p a b st p m = Some m' \<and> scan_rel ls m' (scan_loop a b cs2 k sa)"
  using assms
proof (induction ls2 arbitrary: cs2 p k m sa)
  case Nil
  then show ?case by (subst scan_loop_p.simps) (simp add: scan_rel_def)
next
  case (Cons l ls2)
  from Cons.prems(1) obtain c cs where cs: "cs2 = c # cs" "view st l c" "list_all2 (view st) ls2 cs"
    by (auto simp: list_all2_Cons1)
  from Cons.prems(2) have p: "p = Some l" and pa: "path (snxt (ps_seqs st)) (snxt (ps_seqs st) l) ls2"
    by simp_all
  from cs(2) obtain sq where sq: "ps_seqs st l = Some sq" by (auto simp: view_def)
  from Cons.prems(3) have "ls ! (k + 0) = (l # ls2) ! 0" by blast
  then have lk: "ls ! k = l" by simp
  have r0: "scan_rel ls (m\<lparr>p_ss := Some l\<rparr>) (sa\<lparr>ss := Some k\<rparr>)"
    using Cons.prems(4) lk by (simp add: scan_rel_def)
  from match_a_p_refines[OF sq cs(2) r0 lk, of a] obtain m1 where
    m1: "match_a_p a st l sq (m\<lparr>p_ss := Some l\<rparr>) = Some m1"
      "scan_rel ls m1 (match_a a k c (sa\<lparr>ss := Some k\<rparr>))" by blast
  from match_b_p_refines[OF sq cs(2) m1(2) lk, of b] obtain m2 where
    m2: "match_b_p b st l sq m1 = Some m2"
      "scan_rel ls m2 (match_b b k c (match_a a k c (sa\<lparr>ss := Some k\<rparr>)))" by blast
  let ?sa1 = "match_b b k c (match_a a k c (sa\<lparr>ss := Some k\<rparr>))"
  have both: "(p_mb m2 \<noteq> None \<and> p_ma m2 \<noteq> None) \<longleftrightarrow> (mb ?sa1 \<noteq> None \<and> ma ?sa1 \<noteq> None)"
    using m2(2) by (simp add: scan_rel_def)
  have unf: "scan_loop_p a b st p m =
      (if p_mb m2 \<noteq> None \<and> p_ma m2 \<noteq> None then Some m2
       else scan_loop_p a b st (s_next sq) m2)"
    by (subst scan_loop_p.simps) (simp add: p sq m1(1) m2(1))
  show ?case
  proof (cases "mb ?sa1 \<noteq> None \<and> ma ?sa1 \<noteq> None")
    case True
    with both have "p_mb m2 \<noteq> None \<and> p_ma m2 \<noteq> None" by blast
    with unf have "scan_loop_p a b st p m = Some m2" by (simp del: not_None_eq)
    moreover have "scan_loop a b cs2 k sa = ?sa1"
      using True by (simp add: cs(1) Let_def del: not_None_eq)
    ultimately show ?thesis using m2(2) by simp
  next
    case False
    with both have "\<not> (p_mb m2 \<noteq> None \<and> p_ma m2 \<noteq> None)" by blast
    with unf have u: "scan_loop_p a b st p m = scan_loop_p a b st (s_next sq) m2"
      by (simp del: not_None_eq)
    have v: "scan_loop a b cs2 k sa = scan_loop a b cs (Suc k) ?sa1"
      using False by (auto simp: cs(1) Let_def)
    have nx: "snxt (ps_seqs st) l = s_next sq" by (simp add: snxt_def sq)
    have idx: "\<forall>j<length ls2. ls ! (Suc k + j) = ls2 ! j"
    proof (intro allI impI)
      fix j assume "j < length ls2"
      then have "Suc j < length (l # ls2)" by simp
      with Cons.prems(3) have "ls ! (k + Suc j) = (l # ls2) ! Suc j" by blast
      then show "ls ! (Suc k + j) = ls2 ! j" by simp
    qed
    from Cons.IH[OF cs(3) pa[unfolded nx] idx m2(2)] obtain m' where
      "scan_loop_p a b st (s_next sq) m2 = Some m'"
      "scan_rel ls m' (scan_loop a b cs (Suc k) ?sa1)" by blast
    then show ?thesis unfolding u v by blast
  qed
qed

lemma abstracts_byD:
  assumes "abstracts_by ls ass st cb"
  shows "dll (snxt (ps_seqs st)) (sprv (ps_seqs st)) ls" and "set ls \<subseteq> dom (ps_seqs st)"
    and "ps_s st = first ls" and "length ass = length ls" and "length (cb_s cb) = length ls"
    and "\<And>i. i < length ls \<Longrightarrow> rep_at st (ls ! i) (ass ! i) (cb_s cb ! i)"
    and "\<And>i j. i < length ls \<Longrightarrow> j < length ls \<Longrightarrow> i \<noteq> j \<Longrightarrow> set (ass ! i) \<inter> set (ass ! j) = {}"
    and "\<And>a. a \<in> set ls \<Longrightarrow> a < ps_new st"
    and "\<And>a i. i < length ls \<Longrightarrow> a \<in> set (ass ! i) \<Longrightarrow> a < ps_new st"
    and "ps_count st = cb_count cb" and "ps_level st = cb_level cb"
    and "distinct ls"
proof -
  note a = assms[unfolded abstracts_by_def]
  from a show "dll (snxt (ps_seqs st)) (sprv (ps_seqs st)) ls" "set ls \<subseteq> dom (ps_seqs st)"
    "ps_s st = first ls" "length ass = length ls" "length (cb_s cb) = length ls"
    "ps_count st = cb_count cb" "ps_level st = cb_level cb"
    by simp_all
  then show "distinct ls" by (simp add: dll_def)
  from a show "\<And>i. i < length ls \<Longrightarrow> rep_at st (ls ! i) (ass ! i) (cb_s cb ! i)" by blast
  from a show "\<And>i j. i < length ls \<Longrightarrow> j < length ls \<Longrightarrow> i \<noteq> j \<Longrightarrow> set (ass ! i) \<inter> set (ass ! j) = {}"
    by blast
  from a show "\<And>a. a \<in> set ls \<Longrightarrow> a < ps_new st" by blast
  from a have f: "\<forall>a \<in> set (concat ass). a < ps_new st" by blast
  show "a < ps_new st" if "i < length ls" "a \<in> set (ass ! i)" for a i
  proof -
    from that a have "ass ! i \<in> set ass" by simp
    with that(2) have "a \<in> set (concat ass)" by auto
    with f show ?thesis by blast
  qed
qed

lemma abstracts_byI:
  assumes "dll (snxt (ps_seqs st)) (sprv (ps_seqs st)) ls" and "set ls \<subseteq> dom (ps_seqs st)"
    and "ps_s st = first ls" and "length ass = length ls" and "length (cb_s cb) = length ls"
    and "\<And>i. i < length ls \<Longrightarrow> rep_at st (ls ! i) (ass ! i) (cb_s cb ! i)"
    and "\<And>i j. i < length ls \<Longrightarrow> j < length ls \<Longrightarrow> i \<noteq> j \<Longrightarrow> set (ass ! i) \<inter> set (ass ! j) = {}"
    and "\<And>a. a \<in> set ls \<Longrightarrow> a < ps_new st"
    and "\<And>a i. i < length ls \<Longrightarrow> a \<in> set (ass ! i) \<Longrightarrow> a < ps_new st"
    and "ps_count st = cb_count cb" and "ps_level st = cb_level cb"
  shows "abstracts_by ls ass st cb"
proof -
  have "a < ps_new st" if "a \<in> set (concat ass)" for a
  proof -
    from that obtain as where "as \<in> set ass" "a \<in> set as" by auto
    then obtain i where "i < length ass" "ass ! i = as" by (auto simp: in_set_conv_nth)
    with assms(4,9) \<open>a \<in> set as\<close> show ?thesis by auto
  qed
  then have "\<forall>a \<in> set ls \<union> set (concat ass). a < ps_new st" using assms(8) by blast
  with assms(1-7,10,11) show ?thesis unfolding abstracts_by_def by blast
qed

lemma rep_at_frame:
  assumes "rep_at st l as c"
    and "\<And>a. a \<in> set as \<Longrightarrow> ps_nodes st' a = ps_nodes st a"
    and "\<And>sq. ps_seqs st l = Some sq \<Longrightarrow>
      \<exists>sq'. ps_seqs st' l = Some sq' \<and> s_head sq' = s_head sq \<and> s_tail sq' = s_tail sq
        \<and> s_closed sq' = s_closed sq"
  shows "rep_at st' l as c"
proof -
  from assms(1) obtain sq where sq: "ps_seqs st l = Some sq" "chain_rep (ps_nodes st) sq as c"
    by (auto simp: rep_at_def)
  from assms(3)[OF sq(1)] obtain sq' where sq': "ps_seqs st' l = Some sq'"
    "s_head sq' = s_head sq" "s_tail sq' = s_tail sq" "s_closed sq' = s_closed sq" by blast
  have "chain_rep (ps_nodes st') sq' as c = chain_rep (ps_nodes st) sq as c"
    by (rule chain_rep_frame) (use assms(2) sq'(2-4) in auto)
  with sq(2) sq'(1) show ?thesis by (auto simp: rep_at_def)
qed

lemma scan_p_refines:
  assumes "abstracts_by ls ass st cb"
  shows "\<exists>m. scan_loop_p a b st (ps_s st) pscan_init = Some m \<and> scan_rel ls m (scan a b cb)"
proof -
  note d = abstracts_byD[OF assms]
  have v: "list_all2 (view st) ls (cb_s cb)"
    using d(5,6) by (auto simp: list_all2_conv_all_nth intro: rep_at_view)
  have p: "path (snxt (ps_seqs st)) (ps_s st) ls" using dll_path[OF d(1)] d(3) by simp
  have r: "scan_rel ls pscan_init scan_init"
    by (simp add: scan_rel_def pscan_init_def scan_init_def)
  from scan_loop_p_refines[OF v p _ r, where k=0 and a=a and b=b] show ?thesis by (simp add: scan_def)
qed

lemma all_less_Cons: "(\<forall>i<length (x # xs). P i) \<longleftrightarrow> P 0 \<and> (\<forall>i<length xs. P (Suc i))"
  by (auto simp: less_Suc_eq_0_disj)

lemma new_seq_p_refines:
  assumes "abstracts_by ls ass st cb"
  shows "\<exists>st'. new_seq_p a b st = Some st'
     \<and> abstracts_by ((ps_new st + 2) # ls) ([ps_new st, ps_new st + 1] # ass) st'
          (cb\<lparr>cb_s := \<lparr>head = a, mid = [], tail = b, closed_flag = False\<rparr> # cb_s cb,
              cb_count := cb_count cb + 1\<rparr>)"
proof -
  note d = abstracts_byD[OF assms]
  let ?aa = "ps_new st" and ?bb = "ps_new st + 1" and ?l = "ps_new st + 2"
  let ?ns = "(ps_nodes st)(?aa \<mapsto> \<lparr>n_p = a, n_prev = None, n_next = Some ?bb\<rparr>,
                             ?bb \<mapsto> \<lparr>n_p = b, n_prev = Some ?aa, n_next = None\<rparr>)"
  let ?sq = "\<lparr>s_head = ?aa, s_tail = ?bb, s_next = ps_s st, s_prev = None, s_closed = False\<rparr>"
  let ?sqs = "(ps_seqs st)(?l \<mapsto> ?sq)"
  let ?c = "\<lparr>head = a, mid = [], tail = b, closed_flag = False\<rparr>"
  let ?cb = "cb\<lparr>cb_s := ?c # cb_s cb, cb_count := cb_count cb + 1\<rparr>"
  have lfresh: "?l \<notin> set ls" using d(8) by fastforce
  define sqs1 where "sqs1 = (case ls of [] \<Rightarrow> ?sqs
      | f # _ \<Rightarrow> ?sqs(f \<mapsto> (the (ps_seqs st f))\<lparr>s_prev := Some ?l\<rparr>))"
  define st' where "st' = st\<lparr>ps_nodes := ?ns, ps_seqs := sqs1, ps_s := Some ?l,
      ps_count := ps_count st + 1, ps_new := ps_new st + 3\<rparr>"
  have run: "new_seq_p a b st = Some st'"
  proof (cases ls)
    case Nil
    then show ?thesis using d(3) by (simp add: new_seq_p_def st'_def sqs1_def Let_def)
  next
    case (Cons f ls')
    then obtain fsq where f: "ps_seqs st f = Some fsq" using d(2) by auto
    have "f \<noteq> ?l" using lfresh Cons by auto
    with f Cons d(3) show ?thesis by (simp add: new_seq_p_def st'_def sqs1_def Let_def)
  qed
  have sqs1_l: "sqs1 ?l = Some ?sq" using lfresh by (auto simp: sqs1_def split: list.splits)
  have sqs1_other: "\<exists>sq'. sqs1 x = Some sq' \<and> s_head sq' = s_head sq \<and> s_tail sq' = s_tail sq
      \<and> s_closed sq' = s_closed sq \<and> s_next sq' = s_next sq
      \<and> s_prev sq' = (if x = hd ls then Some ?l else s_prev sq)"
    if "x \<in> set ls" "ps_seqs st x = Some sq" for x sq
    using that lfresh by (cases ls) (auto simp: sqs1_def)
  have dl: "dll (snxt sqs1) (sprv sqs1) (?l # ls)"
  proof (cases ls)
    case Nil
    then show ?thesis using d(3) by (simp add: dll_def snxt_def sprv_def sqs1_def)
  next
    case (Cons f ls')
    have "dll (snxt sqs1) (sprv sqs1) (?l # ls)
        = dll ((snxt (ps_seqs st))(?l := Some (hd ls))) ((sprv (ps_seqs st))(?l := None, hd ls := Some ?l))
            (?l # ls)"
    proof (rule dll_cong)
      fix x assume x: "x \<in> set (?l # ls)"
      show "snxt sqs1 x = ((snxt (ps_seqs st))(?l := Some (hd ls))) x
          \<and> sprv sqs1 x = ((sprv (ps_seqs st))(?l := None, hd ls := Some ?l)) x"
      proof (cases "x = ?l")
        case True
        then show ?thesis using sqs1_l d(3) lfresh Cons by (auto simp: snxt_def sprv_def)
      next
        case False
        with x have xl: "x \<in> set ls" by simp
        then obtain sq where sq: "ps_seqs st x = Some sq" using d(2) by auto
        from sqs1_other[OF xl sq] obtain sq' where "sqs1 x = Some sq'" "s_next sq' = s_next sq"
          "s_prev sq' = (if x = hd ls then Some ?l else s_prev sq)" by blast
        with sq False show ?thesis by (auto simp: snxt_def sprv_def)
      qed
    qed
    moreover have "ls \<noteq> []" using Cons by simp
    ultimately show ?thesis using dll_prepend[OF d(1) _ lfresh] by simp
  qed
  have fresh_nodes: "?aa \<notin> set (ass ! i)" "?bb \<notin> set (ass ! i)" if "i < length ls" for i
    using d(9)[OF that] by fastforce+
  have rep0: "rep_at st' ?l [?aa, ?bb] ?c"
    unfolding rep_at_def chain_rep_def
    using sqs1_l
    by (auto simp: st'_def dll_def nxt_def prv_def points_of_def)
  have repS: "rep_at st' (ls ! i) (ass ! i) (cb_s cb ! i)" if "i < length ls" for i
  proof (rule rep_at_frame[OF d(6)[OF that]])
    fix x assume "x \<in> set (ass ! i)"
    with fresh_nodes[OF that] show "ps_nodes st' x = ps_nodes st x" by (auto simp: st'_def)
  next
    fix sq assume "ps_seqs st (ls ! i) = Some sq"
    from sqs1_other[OF _ this] that
    show "\<exists>sq'. ps_seqs st' (ls ! i) = Some sq' \<and> s_head sq' = s_head sq \<and> s_tail sq' = s_tail sq
        \<and> s_closed sq' = s_closed sq"
      by (auto simp: st'_def)
  qed
  have "abstracts_by (?l # ls) ([?aa, ?bb] # ass) st' ?cb"
  proof (rule abstracts_byI)
    show "dll (snxt (ps_seqs st')) (sprv (ps_seqs st')) (?l # ls)" using dl by (simp add: st'_def)
    show "set (?l # ls) \<subseteq> dom (ps_seqs st')"
    proof
      fix x assume "x \<in> set (?l # ls)"
      then consider "x = ?l" | "x \<in> set ls" by auto
      then show "x \<in> dom (ps_seqs st')"
      proof cases
        case 1
        then show ?thesis using sqs1_l by (auto simp: st'_def)
      next
        case 2
        then obtain sq where "ps_seqs st x = Some sq" using d(2) by auto
        from sqs1_other[OF 2 this] show ?thesis by (auto simp: st'_def)
      qed
    qed
    show "ps_s st' = first (?l # ls)" by (simp add: st'_def)
    show "length ([?aa, ?bb] # ass) = length (?l # ls)" using d(4) by simp
    show "length (cb_s ?cb) = length (?l # ls)" using d(5) by simp
    show "rep_at st' ((?l # ls) ! i) (([?aa, ?bb] # ass) ! i) (cb_s ?cb ! i)"
      if "i < length (?l # ls)" for i
      using that rep0 repS by (cases i) auto
    show "set (([?aa, ?bb] # ass) ! i) \<inter> set (([?aa, ?bb] # ass) ! j) = {}"
      if "i < length (?l # ls)" "j < length (?l # ls)" "i \<noteq> j" for i j
    proof (cases i; cases j)
      fix i' j' assume "i = Suc i'" "j = Suc j'"
      with that d(7)[of i' j'] show ?thesis by simp
    next
      fix j' assume "i = 0" "j = Suc j'"
      with that fresh_nodes[of j'] show ?thesis by simp
    next
      fix i' assume "i = Suc i'" "j = 0"
      with that fresh_nodes[of i'] show ?thesis by simp
    next
      assume "i = 0" "j = 0"
      with that show ?thesis by simp
    qed
    show "x < ps_new st'" if "x \<in> set (?l # ls)" for x
      using that d(8)[of x] by (auto simp: st'_def)
    show "x < ps_new st'" if "i < length (?l # ls)" "x \<in> set (([?aa, ?bb] # ass) ! i)" for x i
    proof (cases i)
      case 0
      with that show ?thesis by (auto simp: st'_def)
    next
      case (Suc i')
      with that d(9)[of i' x] show ?thesis by (auto simp: st'_def)
    qed
    show "ps_count st' = cb_count ?cb" using d(10) by (simp add: st'_def)
    show "ps_level st' = cb_level ?cb" using d(11) by (simp add: st'_def)
  qed
  with run show ?thesis by blast
qed

lemma abstracts_by_update:
  assumes ab: "abstracts_by ls ass st cb" and i: "i < length ls"
    and sq: "ps_seqs st (ls ! i) = Some sq"
    and seqs: "ps_seqs st' = (ps_seqs st)(ls ! i \<mapsto> sq')" "s_next sq' = s_next sq"
      "s_prev sq' = s_prev sq"
    and nodes: "\<And>x. x \<notin> set (ass ! i) \<Longrightarrow> x < ps_new st \<Longrightarrow> ps_nodes st' x = ps_nodes st x"
    and rep: "rep_at st' (ls ! i) as' c'"
    and as': "\<And>x. x \<in> set as' \<Longrightarrow> x \<in> set (ass ! i) \<or> (ps_new st \<le> x \<and> x < ps_new st')"
    and new: "ps_new st \<le> ps_new st'"
    and same: "ps_s st' = ps_s st" "ps_count st' = ps_count st" "ps_level st' = ps_level st"
  shows "abstracts_by ls (ass[i := as']) st' (cb\<lparr>cb_s := (cb_s cb)[i := c']\<rparr>)"
proof (rule abstracts_byI)
  note d = abstracts_byD[OF ab]
  have lk: "snxt (ps_seqs st') x = snxt (ps_seqs st) x \<and> sprv (ps_seqs st') x = sprv (ps_seqs st) x"
    for x
    using sq seqs by (simp add: snxt_def sprv_def)
  have "dll (snxt (ps_seqs st')) (sprv (ps_seqs st')) ls = dll (snxt (ps_seqs st)) (sprv (ps_seqs st)) ls"
    by (rule dll_cong) (rule lk)
  with d(1) show "dll (snxt (ps_seqs st')) (sprv (ps_seqs st')) ls" by simp
  show "set ls \<subseteq> dom (ps_seqs st')" using d(2) seqs(1) by auto
  show "ps_s st' = first ls" using same(1) d(3) by simp
  show "length (ass[i := as']) = length ls" using d(4) by simp
  show "length (cb_s (cb\<lparr>cb_s := (cb_s cb)[i := c']\<rparr>)) = length ls" using d(5) by simp
  show "rep_at st' (ls ! n) (ass[i := as'] ! n) (cb_s (cb\<lparr>cb_s := (cb_s cb)[i := c']\<rparr>) ! n)"
    if n: "n < length ls" for n
  proof (cases "n = i")
    case True
    then show ?thesis using rep i d(4,5) by simp
  next
    case False
    then have ne: "ls ! n \<noteq> ls ! i" using d(12) n i by (simp add: nth_eq_iff_index_eq)
    have "rep_at st' (ls ! n) (ass ! n) (cb_s cb ! n)"
    proof (rule rep_at_frame[OF d(6)[OF n]])
      fix x assume x: "x \<in> set (ass ! n)"
      then have "x \<notin> set (ass ! i)" using d(7)[OF n i False] by auto
      moreover have "x < ps_new st" using d(9)[OF n x] .
      ultimately show "ps_nodes st' x = ps_nodes st x" by (rule nodes)
    next
      fix s assume "ps_seqs st (ls ! n) = Some s"
      then show "\<exists>sq'. ps_seqs st' (ls ! n) = Some sq' \<and> s_head sq' = s_head s
          \<and> s_tail sq' = s_tail s \<and> s_closed sq' = s_closed s"
        using seqs(1) ne by simp
    qed
    with False show ?thesis by simp
  qed
  have dj: "set as' \<inter> set (ass ! m) = {}" if m: "m < length ls" "m \<noteq> i" for m
  proof -
    have "x \<notin> set (ass ! m)" if x: "x \<in> set as'" for x
    proof
      assume xm: "x \<in> set (ass ! m)"
      from as'[OF x] show False
      proof
        assume "x \<in> set (ass ! i)"
        with xm d(7)[OF m(1) i m(2)] show False by auto
      next
        assume "ps_new st \<le> x \<and> x < ps_new st'"
        with d(9)[OF m(1) xm] show False by simp
      qed
    qed
    then show ?thesis by auto
  qed
  show "set (ass[i := as'] ! n) \<inter> set (ass[i := as'] ! m) = {}"
    if nm: "n < length ls" "m < length ls" "n \<noteq> m" for n m
  proof -
    from nm(3) consider "n = i" "m \<noteq> i" | "m = i" "n \<noteq> i" | "n \<noteq> i" "m \<noteq> i" by blast
    then show ?thesis
    proof cases
      case 1
      then show ?thesis using dj[OF nm(2)] i d(4) by simp
    next
      case 2
      then show ?thesis using dj[OF nm(1)] i d(4) by (simp add: Int_commute)
    next
      case 3
      then show ?thesis using d(7)[OF nm] by simp
    qed
  qed
  show "a < ps_new st'" if "a \<in> set ls" for a
    using d(8)[OF that] new by simp
  show "a < ps_new st'" if "n < length ls" "a \<in> set (ass[i := as'] ! n)" for a n
  proof (cases "n = i")
    case True
    with that i d(4) have "a \<in> set as'" by simp
    from as'[OF this] d(9)[OF i] new show ?thesis by fastforce
  next
    case False
    with that d(9)[OF that(1), of a] new show ?thesis by simp
  qed
  show "ps_count st' = cb_count (cb\<lparr>cb_s := (cb_s cb)[i := c']\<rparr>)" using same(2) d(10) by simp
  show "ps_level st' = cb_level (cb\<lparr>cb_s := (cb_s cb)[i := c']\<rparr>)" using same(3) d(11) by simp
qed

lemma rep_atD:
  assumes "rep_at st l as c"
  obtains sq h t where "ps_seqs st l = Some sq" "chain_rep (ps_nodes st) sq as c"
    "ps_nodes st (s_head sq) = Some h" "ps_nodes st (s_tail sq) = Some t"
    "s_head sq \<in> set as" "s_tail sq \<in> set as"
proof -
  from assms obtain sq where sq: "ps_seqs st l = Some sq" "chain_rep (ps_nodes st) sq as c"
    by (auto simp: rep_at_def)
  from chain_rep_head[OF sq(2)] chain_rep_tail[OF sq(2)] obtain h t where
    "ps_nodes st (s_head sq) = Some h" "ps_nodes st (s_tail sq) = Some t" by blast
  moreover from sq(2) have "s_head sq \<in> set as" "s_tail sq \<in> set as"
    by (auto simp: chain_rep_def)
  ultimately show ?thesis using sq that by blast
qed

lemma extend_p_refines:
  assumes ab: "abstracts_by ls ass st cb" and i: "i < length ls"
  shows "\<exists>st' ass'. extend_p pre q (ls ! i) st = Some st'
     \<and> abstracts_by ls ass' st'
          (cb\<lparr>cb_s := (cb_s cb)[i := (if pre then prepend_node q (cb_s cb ! i)
                                       else append_node q (cb_s cb ! i))]\<rparr>)"
proof -
  note d = abstracts_byD[OF ab]
  let ?pp = "ps_new st"
  from d(6)[OF i] obtain sq h t where sq: "ps_seqs st (ls ! i) = Some sq"
    "chain_rep (ps_nodes st) sq (ass ! i) (cb_s cb ! i)"
    "ps_nodes st (s_head sq) = Some h" "ps_nodes st (s_tail sq) = Some t"
    "s_head sq \<in> set (ass ! i)" "s_tail sq \<in> set (ass ! i)"
    by (rule rep_atD)
  have fr: "?pp \<notin> set (ass ! i)" using d(9)[OF i] by fastforce
  then have ne: "s_head sq \<noteq> ?pp" "s_tail sq \<noteq> ?pp" using sq(5,6) by auto
  show ?thesis
  proof (cases pre)
    case True
    let ?ns = "(ps_nodes st)(?pp \<mapsto> \<lparr>n_p = q, n_prev = None, n_next = Some (s_head sq)\<rparr>,
                 s_head sq \<mapsto> h\<lparr>n_prev := Some ?pp\<rparr>)"
    let ?st = "st\<lparr>ps_nodes := ?ns, ps_seqs := (ps_seqs st)(ls ! i \<mapsto> sq\<lparr>s_head := ?pp\<rparr>),
                  ps_new := ps_new st + 1\<rparr>"
    have run: "extend_p pre q (ls ! i) st = Some ?st"
      using True sq(1,3) ne by (simp add: extend_p_def Let_def)
    have "abstracts_by ls (ass[i := ?pp # ass ! i]) ?st
        (cb\<lparr>cb_s := (cb_s cb)[i := prepend_node q (cb_s cb ! i)]\<rparr>)"
    proof (rule abstracts_by_update[OF ab i sq(1)])
      show "ps_seqs ?st = (ps_seqs st)(ls ! i \<mapsto> sq\<lparr>s_head := ?pp\<rparr>)" by simp
      show "rep_at ?st (ls ! i) (?pp # ass ! i) (prepend_node q (cb_s cb ! i))"
        using chain_rep_prepend[OF sq(2) fr sq(3)] by (simp add: rep_at_def)
      show "ps_nodes ?st x = ps_nodes st x" if "x \<notin> set (ass ! i)" "x < ps_new st" for x
        using that sq(5) by auto
      show "x \<in> set (ass ! i) \<or> (ps_new st \<le> x \<and> x < ps_new ?st)" if "x \<in> set (?pp # ass ! i)" for x
        using that by auto
    qed simp_all
    with run True show ?thesis by auto
  next
    case False
    let ?ns = "(ps_nodes st)(?pp \<mapsto> \<lparr>n_p = q, n_prev = Some (s_tail sq), n_next = None\<rparr>,
                 s_tail sq \<mapsto> t\<lparr>n_next := Some ?pp\<rparr>)"
    let ?st = "st\<lparr>ps_nodes := ?ns, ps_seqs := (ps_seqs st)(ls ! i \<mapsto> sq\<lparr>s_tail := ?pp\<rparr>),
                  ps_new := ps_new st + 1\<rparr>"
    have run: "extend_p pre q (ls ! i) st = Some ?st"
      using False sq(1,4) ne by (simp add: extend_p_def Let_def)
    have "abstracts_by ls (ass[i := ass ! i @ [?pp]]) ?st
        (cb\<lparr>cb_s := (cb_s cb)[i := append_node q (cb_s cb ! i)]\<rparr>)"
    proof (rule abstracts_by_update[OF ab i sq(1)])
      show "ps_seqs ?st = (ps_seqs st)(ls ! i \<mapsto> sq\<lparr>s_tail := ?pp\<rparr>)" by simp
      show "rep_at ?st (ls ! i) (ass ! i @ [?pp]) (append_node q (cb_s cb ! i))"
        using chain_rep_append[OF sq(2) fr sq(4)] by (simp add: rep_at_def)
      show "ps_nodes ?st x = ps_nodes st x" if "x \<notin> set (ass ! i)" "x < ps_new st" for x
        using that sq(6) by auto
      show "x \<in> set (ass ! i) \<or> (ps_new st \<le> x \<and> x < ps_new ?st)" if "x \<in> set (ass ! i @ [?pp])" for x
        using that by auto
    qed simp_all
    with run False show ?thesis by auto
  qed
qed

lemma close_p_refines:
  assumes ab: "abstracts_by ls ass st cb" and i: "i < length ls"
  shows "\<exists>st' ass'. close_p (ls ! i) st = Some st'
     \<and> abstracts_by ls ass' st' (cb\<lparr>cb_s := (cb_s cb)[i := close_chain (cb_s cb ! i)]\<rparr>)"
proof -
  note d = abstracts_byD[OF ab]
  let ?pp = "ps_new st"
  from d(6)[OF i] obtain sq h t where sq: "ps_seqs st (ls ! i) = Some sq"
    "chain_rep (ps_nodes st) sq (ass ! i) (cb_s cb ! i)"
    "ps_nodes st (s_head sq) = Some h" "ps_nodes st (s_tail sq) = Some t"
    "s_head sq \<in> set (ass ! i)" "s_tail sq \<in> set (ass ! i)"
    by (rule rep_atD)
  have fr: "?pp \<notin> set (ass ! i)" using d(9)[OF i] by fastforce
  then have ne: "s_head sq \<noteq> ?pp" "s_tail sq \<noteq> ?pp" using sq(5,6) by auto
  let ?ns = "(ps_nodes st)(?pp \<mapsto> \<lparr>n_p = n_p t, n_prev = None, n_next = Some (s_head sq)\<rparr>,
               s_head sq \<mapsto> h\<lparr>n_prev := Some ?pp\<rparr>)"
  let ?st = "st\<lparr>ps_nodes := ?ns,
                ps_seqs := (ps_seqs st)(ls ! i \<mapsto> sq\<lparr>s_head := ?pp, s_closed := True\<rparr>),
                ps_new := ps_new st + 1\<rparr>"
  have run: "close_p (ls ! i) st = Some ?st"
    using sq(1,3,4) ne by (simp add: close_p_def Let_def)
  have "abstracts_by ls (ass[i := ?pp # ass ! i]) ?st
      (cb\<lparr>cb_s := (cb_s cb)[i := close_chain (cb_s cb ! i)]\<rparr>)"
  proof (rule abstracts_by_update[OF ab i sq(1)])
    show "ps_seqs ?st = (ps_seqs st)(ls ! i \<mapsto> sq\<lparr>s_head := ?pp, s_closed := True\<rparr>)" by simp
    show "rep_at ?st (ls ! i) (?pp # ass ! i) (close_chain (cb_s cb ! i))"
      using chain_rep_close[OF sq(2) fr sq(3,4)] by (simp add: rep_at_def)
    show "ps_nodes ?st x = ps_nodes st x" if "x \<notin> set (ass ! i)" "x < ps_new st" for x
      using that sq(5) by auto
    show "x \<in> set (ass ! i) \<or> (ps_new st \<le> x \<and> x < ps_new ?st)" if "x \<in> set (?pp # ass ! i)" for x
      using that by auto
  qed simp_all
  with run show ?thesis by auto
qed

lemma reverseList_p_refines:
  assumes ab: "abstracts_by ls ass st cb" and i: "i < length ls"
  shows "\<exists>st' ass'. reverseList_p (ls ! i) st = Some st'
     \<and> abstracts_by ls ass' st' (cb\<lparr>cb_s := (cb_s cb)[i := reverseList (cb_s cb ! i)]\<rparr>)"
proof -
  note d = abstracts_byD[OF ab]
  from d(6)[OF i] obtain sq h t where sq: "ps_seqs st (ls ! i) = Some sq"
    "chain_rep (ps_nodes st) sq (ass ! i) (cb_s cb ! i)"
    "ps_nodes st (s_head sq) = Some h" "ps_nodes st (s_tail sq) = Some t"
    "s_head sq \<in> set (ass ! i)" "s_tail sq \<in> set (ass ! i)"
    by (rule rep_atD)
  from chain_rep_reverse[OF sq(2)] obtain ns' where ns':
    "reverse_loop (ps_nodes st) (Some (s_head sq)) = Some ns'"
    "chain_rep ns' (sq\<lparr>s_head := s_tail sq, s_tail := s_head sq\<rparr>) (rev (ass ! i))
       (reverseList (cb_s cb ! i))"
    "\<And>x. x \<notin> set (ass ! i) \<Longrightarrow> ns' x = ps_nodes st x" by blast
  let ?st = "st\<lparr>ps_nodes := ns',
       ps_seqs := (ps_seqs st)(ls ! i \<mapsto> sq\<lparr>s_head := s_tail sq, s_tail := s_head sq\<rparr>)\<rparr>"
  have run: "reverseList_p (ls ! i) st = Some ?st"
    using sq(1) ns'(1) by (simp add: reverseList_p_def)
  have "abstracts_by ls (ass[i := rev (ass ! i)]) ?st
      (cb\<lparr>cb_s := (cb_s cb)[i := reverseList (cb_s cb ! i)]\<rparr>)"
  proof (rule abstracts_by_update[OF ab i sq(1)])
    show "ps_seqs ?st = (ps_seqs st)(ls ! i \<mapsto> sq\<lparr>s_head := s_tail sq, s_tail := s_head sq\<rparr>)"
      by simp
    show "rep_at ?st (ls ! i) (rev (ass ! i)) (reverseList (cb_s cb ! i))"
      using ns'(2) by (simp add: rep_at_def)
    show "ps_nodes ?st x = ps_nodes st x" if "x \<notin> set (ass ! i)" "x < ps_new st" for x
      using that ns'(3) by simp
    show "x \<in> set (ass ! i) \<or> (ps_new st \<le> x \<and> x < ps_new ?st)" if "x \<in> set (rev (ass ! i))" for x
      using that by auto
  qed simp_all
  with run show ?thesis by auto
qed

lemma splice_p_refines:
  assumes ab: "abstracts_by ls ass st cb" and i: "i < length ls" and j: "j < length ls"
    and ij: "i \<noteq> j"
  shows "\<exists>st' ass'. splice_p (ls ! i) (ls ! j) st = Some st'
     \<and> abstracts_except j ls ass' st'
          (cb\<lparr>cb_s := (cb_s cb)[i := splice (cb_s cb ! i) (cb_s cb ! j)]\<rparr>)"
proof -
  note d = abstracts_byD[OF ab]
  from d(6)[OF i] obtain su hu tu where su: "ps_seqs st (ls ! i) = Some su"
    "chain_rep (ps_nodes st) su (ass ! i) (cb_s cb ! i)"
    "ps_nodes st (s_head su) = Some hu" "ps_nodes st (s_tail su) = Some tu"
    "s_head su \<in> set (ass ! i)" "s_tail su \<in> set (ass ! i)"
    by (rule rep_atD)
  from d(6)[OF j] obtain sv hv tv where sv: "ps_seqs st (ls ! j) = Some sv"
    "chain_rep (ps_nodes st) sv (ass ! j) (cb_s cb ! j)"
    "ps_nodes st (s_head sv) = Some hv" "ps_nodes st (s_tail sv) = Some tv"
    "s_head sv \<in> set (ass ! j)" "s_tail sv \<in> set (ass ! j)"
    by (rule rep_atD)
  have dj: "set (ass ! i) \<inter> set (ass ! j) = {}" using d(7)[OF i j ij] .
  then have ne: "s_head sv \<noteq> s_tail su" using su(6) sv(5) by auto
  let ?ns = "(ps_nodes st)(s_tail su \<mapsto> tu\<lparr>n_next := Some (s_head sv)\<rparr>,
               s_head sv \<mapsto> hv\<lparr>n_prev := Some (s_tail su)\<rparr>)"
  let ?st = "st\<lparr>ps_nodes := ?ns, ps_seqs := (ps_seqs st)(ls ! i \<mapsto> su\<lparr>s_tail := s_tail sv\<rparr>)\<rparr>"
  let ?ass = "ass[i := ass ! i @ ass ! j]"
  let ?cb = "cb\<lparr>cb_s := (cb_s cb)[i := splice (cb_s cb ! i) (cb_s cb ! j)]\<rparr>"
  have run: "splice_p (ls ! i) (ls ! j) st = Some ?st"
    using su(1,4) sv(1,3) ne by (simp add: splice_p_def Let_def)
  have lk: "snxt (ps_seqs ?st) x = snxt (ps_seqs st) x \<and> sprv (ps_seqs ?st) x = sprv (ps_seqs st) x"
    for x
    using su(1) by (simp add: snxt_def sprv_def)
  have dl: "dll (snxt (ps_seqs ?st)) (sprv (ps_seqs ?st)) ls"
  proof -
    have "dll (snxt (ps_seqs ?st)) (sprv (ps_seqs ?st)) ls
        = dll (snxt (ps_seqs st)) (sprv (ps_seqs st)) ls"
      by (rule dll_cong) (rule lk)
    with d(1) show ?thesis by simp
  qed
  have repi: "rep_at ?st (ls ! i) (ass ! i @ ass ! j) (splice (cb_s cb ! i) (cb_s cb ! j))"
    using chain_rep_splice[OF su(2) sv(2) dj su(4) sv(3)] by (simp add: rep_at_def)
  have repn: "rep_at ?st (ls ! n) (ass ! n) (cb_s cb ! n)"
    if n: "n < length ls" "n \<noteq> i" "n \<noteq> j" for n
  proof (rule rep_at_frame[OF d(6)[OF n(1)]])
    fix x assume x: "x \<in> set (ass ! n)"
    have "x \<noteq> s_tail su" using d(7)[OF n(1) i n(2)] x su(6) by auto
    moreover have "x \<noteq> s_head sv" using d(7)[OF n(1) j n(3)] x sv(5) by auto
    ultimately show "ps_nodes ?st x = ps_nodes st x" by simp
  next
    fix s assume s: "ps_seqs st (ls ! n) = Some s"
    have "ls ! n \<noteq> ls ! i" using d(12) n i by (simp add: nth_eq_iff_index_eq)
    with s show "\<exists>sq'. ps_seqs ?st (ls ! n) = Some sq' \<and> s_head sq' = s_head s
        \<and> s_tail sq' = s_tail s \<and> s_closed sq' = s_closed s" by simp
  qed
  have "abstracts_except j ls ?ass ?st ?cb"
    unfolding abstracts_except_def
  proof (intro conjI allI impI ballI)
    show "dll (snxt (ps_seqs ?st)) (sprv (ps_seqs ?st)) ls" by (rule dl)
    show "set ls \<subseteq> dom (ps_seqs ?st)" using d(2) by auto
    show "ps_s ?st = first ls" using d(3) by simp
    show "length ?ass = length ls" using d(4) by simp
    show "length (cb_s ?cb) = length ls" using d(5) by simp
    show "rep_at ?st (ls ! n) (?ass ! n) (cb_s ?cb ! n)" if "n < length ls" "n \<noteq> j" for n
      using that repi repn[of n] i d(4,5) by (cases "n = i") simp_all
    show "set (?ass ! n) \<inter> set (?ass ! k) = {}"
      if "n < length ls" "k < length ls" "n \<noteq> j" "k \<noteq> j" "n \<noteq> k" for n k
    proof -
      have A: "set (ass ! i @ ass ! j) \<inter> set (ass ! m) = {}"
        if "m < length ls" "m \<noteq> i" "m \<noteq> j" for m
        using d(7)[OF i that(1)] d(7)[OF j that(1)] that(2,3) by auto
      from that(5) consider "n = i" "k \<noteq> i" | "k = i" "n \<noteq> i" | "n \<noteq> i" "k \<noteq> i" by blast
      then show ?thesis
      proof cases
        case 1
        then show ?thesis using A[OF that(2) _ that(4)] i d(4) by simp
      next
        case 2
        then show ?thesis using A[OF that(1) _ that(3)] i d(4) by (simp add: Int_commute)
      next
        case 3
        then show ?thesis using d(7)[OF that(1,2,5)] by simp
      qed
    qed
    show "a < ps_new ?st" if "a \<in> set ls" for a using d(8)[OF that] by simp
    show "a < ps_new ?st" if "n < length ls" "n \<noteq> j" "a \<in> set (?ass ! n)" for a n
    proof (cases "n = i")
      case True
      with that i d(4) have "a \<in> set (ass ! i) \<or> a \<in> set (ass ! j)" by simp
      with d(9)[OF i] d(9)[OF j] show ?thesis by auto
    next
      case False
      with that d(9)[OF that(1), of a] show ?thesis by simp
    qed
    show "ps_count ?st = cb_count ?cb" using d(10) by simp
    show "ps_level ?st = cb_level ?cb" using d(11) by simp
  qed
  with run show ?thesis by blast
qed

lemma remove_seq_p_run:
  assumes "ps_seqs st l = Some sq"
    and "\<And>p. s_prev sq = Some p \<Longrightarrow> p \<in> dom (ps_seqs st)"
    and "\<And>n. s_next sq = Some n \<Longrightarrow> n \<in> dom (ps_seqs st)"
  shows "\<exists>st'. remove_seq_p l st = Some st'
      \<and> ps_nodes st' = ps_nodes st \<and> ps_new st' = ps_new st \<and> ps_level st' = ps_level st
      \<and> ps_count st' = ps_count st - 1
      \<and> ps_s st' = (case s_prev sq of None \<Rightarrow> s_next sq | Some p \<Rightarrow> ps_s st)
      \<and> (\<forall>x s. ps_seqs st x = Some s \<longrightarrow>
            (\<exists>s'. ps_seqs st' x = Some s' \<and> s_head s' = s_head s \<and> s_tail s' = s_tail s
               \<and> s_closed s' = s_closed s))
      \<and> snxt (ps_seqs st') =
          (case s_prev sq of Some p \<Rightarrow> (snxt (ps_seqs st))(p := s_next sq)
                           | None \<Rightarrow> snxt (ps_seqs st))
      \<and> sprv (ps_seqs st') =
          (case s_next sq of Some n \<Rightarrow> (sprv (ps_seqs st))(n := s_prev sq)
                           | None \<Rightarrow> sprv (ps_seqs st))"
proof (cases "s_prev sq")
  case None
  note P = None
  show ?thesis
  proof (cases "s_next sq")
    case None
    with P assms(1) show ?thesis by (simp add: remove_seq_p_def)
  next
    case (Some n)
    from assms(3)[OF Some] obtain nsq where n: "ps_seqs st n = Some nsq" by auto
    with P Some assms(1) show ?thesis
      by (auto simp: remove_seq_p_def snxt_def sprv_def fun_eq_iff)
  qed
next
  case (Some p)
  note P = Some
  from assms(2)[OF Some] obtain psq where p: "ps_seqs st p = Some psq" by auto
  show ?thesis
  proof (cases "s_next sq")
    case None
    with P p assms(1) show ?thesis
      by (auto simp: remove_seq_p_def snxt_def sprv_def fun_eq_iff)
  next
    case (Some n)
    from assms(3)[OF Some] obtain nsq where n: "ps_seqs st n = Some nsq" by auto
    with P p Some assms(1) show ?thesis
      by (auto simp: remove_seq_p_def snxt_def sprv_def fun_eq_iff)
  qed
qed

lemma nth_remove:
  assumes "n < length xs - 1"
  shows "(take j xs @ drop (Suc j) xs) ! n = xs ! (if n < j then n else Suc n)"
  using assms by (auto simp: nth_append min_def)

lemma first_append: "first (xs @ ys) = (if xs = [] then first ys else first xs)"
  by (cases xs) (simp_all add: first_def)

lemma remove_seq_p_refines:
  assumes ae: "abstracts_except j ls ass st cb" and j: "j < length ls"
  shows "\<exists>st'. remove_seq_p (ls ! j) st = Some st'
     \<and> abstracts_by (take j ls @ drop (Suc j) ls) (take j ass @ drop (Suc j) ass) st'
          (remove_seq j cb)"
proof -
  note e = ae[unfolded abstracts_except_def]
  let ?l = "ls ! j" and ?xs = "take j ls" and ?ys = "drop (Suc j) ls"
  let ?nx = "snxt (ps_seqs st)" and ?pv = "sprv (ps_seqs st)"
  have ls: "ls = ?xs @ ?l # ?ys" using j by (simp add: id_take_nth_drop)
  from e have dl0: "dll ?nx ?pv ls" and dom: "set ls \<subseteq> dom (ps_seqs st)" by simp_all
  from dl0 have dl: "dll ?nx ?pv (?xs @ ?l # ?ys)" using ls by simp
  have dis: "distinct ls" using dl0 by (simp add: dll_def)
  from dom j obtain sq where sq: "ps_seqs st ?l = Some sq" by (meson domD nth_mem subsetD)
  have lnk: "?pv ?l = s_prev sq" "?nx ?l = s_next sq" using sq by (simp_all add: snxt_def sprv_def)
  note r = dll_remove[OF dl]
  have pvl: "s_prev sq = lastp None ?xs" using r(2) lnk by simp
  have nxl: "s_next sq = firstp ?ys None" using r(3) lnk by simp
  have pd: "p \<in> dom (ps_seqs st)" if "s_prev sq = Some p" for p
  proof -
    from that pvl have "?xs \<noteq> []" "p = last ?xs" by (auto simp: lastp_def split: if_splits)
    then have "p \<in> set ?xs" by simp
    then have "p \<in> set ls" by (rule in_set_takeD)
    with dom show ?thesis by blast
  qed
  have nd: "n \<in> dom (ps_seqs st)" if "s_next sq = Some n" for n
  proof -
    from that nxl have "n \<in> set ?ys" by (cases ?ys) auto
    then have "n \<in> set ls" by (rule in_set_dropD)
    with dom show ?thesis by blast
  qed
  from remove_seq_p_run[OF sq pd nd] obtain st' where st':
    "remove_seq_p ?l st = Some st'" "ps_nodes st' = ps_nodes st" "ps_new st' = ps_new st"
    "ps_level st' = ps_level st" "ps_count st' = ps_count st - 1"
    "ps_s st' = (case s_prev sq of None \<Rightarrow> s_next sq | Some p \<Rightarrow> ps_s st)"
    "\<And>x s. ps_seqs st x = Some s \<Longrightarrow>
        \<exists>s'. ps_seqs st' x = Some s' \<and> s_head s' = s_head s \<and> s_tail s' = s_tail s
          \<and> s_closed s' = s_closed s"
    "snxt (ps_seqs st') = (case s_prev sq of Some p \<Rightarrow> ?nx(p := s_next sq) | None \<Rightarrow> ?nx)"
    "sprv (ps_seqs st') = (case s_next sq of Some n \<Rightarrow> ?pv(n := s_prev sq) | None \<Rightarrow> ?pv)"
    by blast
  let ?ls = "?xs @ ?ys" and ?ass = "take j ass @ drop (Suc j) ass"
  let ?f = "\<lambda>n. if n < j then n else Suc n"
  from e have len: "length ass = length ls" "length (cb_s cb) = length ls" by simp_all
  have len': "length ?ls = length ls - 1" using j by auto
  have idx: "?ls ! n = ls ! ?f n" "?ass ! n = ass ! ?f n"
    "(take j (cb_s cb) @ drop (Suc j) (cb_s cb)) ! n = cb_s cb ! ?f n"
    "?f n < length ls" "?f n \<noteq> j"
    if "n < length ?ls" for n
  proof -
    from that len' have n1: "n < length ls - 1" by simp
    then show "?ls ! n = ls ! ?f n" by (rule nth_remove)
    from n1 len show "?ass ! n = ass ! ?f n" by (intro nth_remove) simp
    from n1 len show "(take j (cb_s cb) @ drop (Suc j) (cb_s cb)) ! n = cb_s cb ! ?f n"
      by (intro nth_remove) simp
    from n1 show "?f n < length ls" by auto
    show "?f n \<noteq> j" by auto
  qed
  have "abstracts_by ?ls ?ass st' (remove_seq j cb)"
  proof (rule abstracts_byI)
    show "dll (snxt (ps_seqs st')) (sprv (ps_seqs st')) ?ls"
      using r(1) st'(8,9) lnk by (simp cong: option.case_cong)
    show "set ?ls \<subseteq> dom (ps_seqs st')"
    proof
      fix x assume "x \<in> set ?ls"
      then have "x \<in> set ls" by (auto dest: in_set_takeD in_set_dropD)
      with dom obtain s where "ps_seqs st x = Some s" by auto
      from st'(7)[OF this] show "x \<in> dom (ps_seqs st')" by auto
    qed
    show "ps_s st' = first ?ls"
    proof (cases "?xs = []")
      case True
      then have "s_prev sq = None" using pvl by (simp add: lastp_def)
      then have "ps_s st' = firstp ?ys None" using st'(6) nxl by simp
      also have "\<dots> = first ?ys" by (simp add: firstp_def first_def)
      finally show ?thesis using True by (simp add: first_append)
    next
      case False
      then obtain p where "s_prev sq = Some p" using pvl by (simp add: lastp_def)
      then have "ps_s st' = ps_s st" using st'(6) by simp
      also have "\<dots> = first ls" using e by simp
      also have "\<dots> = first ?xs" using False by (cases ls; cases j) (simp_all add: first_def)
      finally show ?thesis using False by (simp add: first_append)
    qed
    show "length ?ass = length ?ls" using len by simp
    show "length (cb_s (remove_seq j cb)) = length ?ls" using len by (simp add: remove_seq_def)
    show "rep_at st' (?ls ! n) (?ass ! n) (cb_s (remove_seq j cb) ! n)" if n: "n < length ?ls" for n
    proof -
      from e idx(4,5)[OF n] have "rep_at st (ls ! ?f n) (ass ! ?f n) (cb_s cb ! ?f n)" by blast
      then have "rep_at st' (ls ! ?f n) (ass ! ?f n) (cb_s cb ! ?f n)"
        by (rule rep_at_frame) (simp add: st'(2), rule st'(7))
      then show ?thesis using idx(1-3)[OF n] by (simp add: remove_seq_def)
    qed
    show "set (?ass ! n) \<inter> set (?ass ! k) = {}"
      if nk: "n < length ?ls" "k < length ?ls" "n \<noteq> k" for n k
    proof -
      have "?f n \<noteq> ?f k" using nk(3) by auto
      with e idx(4,5)[OF nk(1)] idx(4,5)[OF nk(2)]
      have "set (ass ! ?f n) \<inter> set (ass ! ?f k) = {}" by blast
      then show ?thesis using idx(2)[OF nk(1)] idx(2)[OF nk(2)] by simp
    qed
    show "a < ps_new st'" if "a \<in> set ?ls" for a
    proof -
      from that have "a \<in> set ls" by (auto dest: in_set_takeD in_set_dropD)
      with e show ?thesis using st'(3) by simp
    qed
    show "a < ps_new st'" if "n < length ?ls" "a \<in> set (?ass ! n)" for a n
    proof -
      from that(2) have "a \<in> set (ass ! ?f n)" using idx(2)[OF that(1)] by simp
      with e idx(4,5)[OF that(1)] show ?thesis using st'(3) by auto
    qed
    show "ps_count st' = cb_count (remove_seq j cb)" using e st'(5) by (simp add: remove_seq_def)
    show "ps_level st' = cb_level (remove_seq j cb)" using e st'(4) by (simp add: remove_seq_def)
  qed
  with st'(1) show ?thesis by blast
qed

text \<open>
  The four joins of case 3: the reversal where the source has one, the splice, and
  the unlinking of the record that is discarded.
\<close>

lemma merge_p_refines:
  assumes ab: "abstracts_by ls ass st cb" and i: "i < length ls" and j: "j < length ls"
    and ij: "i \<noteq> j"
  shows "\<exists>st'. merge_p pA pB (ls ! i) (ls ! j) st = Some st'
     \<and> abstracts st' (merge_seqs pA pB i j cb)"
proof -
  note d = abstracts_byD[OF ab]
  let ?cs = "cb_s cb"
  have len: "i < length ?cs" "j < length ?cs" using i j d(5) by simp_all
  have fin: "\<exists>st'. (do { st2 \<leftarrow> splice_p (ls ! u) (ls ! v) st1; remove_seq_p (ls ! v) st2 }) = Some st'
       \<and> abstracts st' (remove_seq v (cb1\<lparr>cb_s := (cb_s cb1)[u := splice (cb_s cb1 ! u) (cb_s cb1 ! v)]\<rparr>))"
    if "abstracts_by ls ass1 st1 cb1" "u < length ls" "v < length ls" "u \<noteq> v"
    for ass1 st1 cb1 u v
  proof -
    from splice_p_refines[OF that] obtain st2 ass2 where s2:
      "splice_p (ls ! u) (ls ! v) st1 = Some st2"
      "abstracts_except v ls ass2 st2 (cb1\<lparr>cb_s := (cb_s cb1)[u := splice (cb_s cb1 ! u) (cb_s cb1 ! v)]\<rparr>)"
      by blast
    from remove_seq_p_refines[OF s2(2) that(3)] s2(1) show ?thesis
      by (auto simp: abstracts_def)
  qed
  consider "\<not> pA \<and> \<not> pB" | "pA \<and> \<not> pB" | "pA \<and> pB" | "\<not> pA \<and> pB" by blast
  then show ?thesis
  proof cases
    case 1
    from reverseList_p_refines[OF ab i] obtain st1 ass1 where r:
      "reverseList_p (ls ! i) st = Some st1"
      "abstracts_by ls ass1 st1 (cb\<lparr>cb_s := ?cs[i := reverseList (?cs ! i)]\<rparr>)" by blast
    from fin[OF r(2) j i] ij r(1) 1 len show ?thesis
      by (simp add: merge_p_def merge_seqs_def Let_def)
  next
    case 2
    from fin[OF ab j i] ij 2 show ?thesis
      by (simp add: merge_p_def merge_seqs_def Let_def)
  next
    case 3
    from reverseList_p_refines[OF ab i] obtain st1 ass1 where r:
      "reverseList_p (ls ! i) st = Some st1"
      "abstracts_by ls ass1 st1 (cb\<lparr>cb_s := ?cs[i := reverseList (?cs ! i)]\<rparr>)" by blast
    from fin[OF r(2) i j ij] r(1) 3 len ij show ?thesis
      by (simp add: merge_p_def merge_seqs_def Let_def)
  next
    case 4
    from fin[OF ab i j ij] 4 show ?thesis
      by (simp add: merge_p_def merge_seqs_def Let_def)
  qed
qed

text \<open>
  \<^verbatim>\<open>addSegment\<close> on the linked records returns, and its result represents the result
  of \<open>addSegment\<close> on the chain list.
\<close>

lemma addSegment_p_refines:
  assumes "abstracts st cb"
  shows "\<exists>st'. addSegment_p a b st = Some st' \<and> abstracts st' (addSegment a b cb)"
proof -
  from assms obtain ls ass where ab: "abstracts_by ls ass st cb" by (auto simp: abstracts_def)
  note d = abstracts_byD[OF ab]
  from scan_p_refines[OF ab] obtain m where m:
    "scan_loop_p a b st (ps_s st) pscan_init = Some m" "scan_rel ls m (scan a b cb)" by blast
  let ?sa = "scan a b cb"
  from m(2) have rel: "p_ma m = map_option (\<lambda>i. ls ! i) (ma ?sa)"
    "p_mb m = map_option (\<lambda>i. ls ! i) (mb ?sa)"
    "p_prependA m = prependA ?sa" "p_prependB m = prependB ?sa"
    by (simp_all add: scan_rel_def)
  have lt: "i < length ls" if "ma ?sa = Some i \<or> mb ?sa = Some i" for i
    using that d(5) by (auto simp: scan_ma scan_mb first_match_Some)
  show ?thesis
  proof (cases "ma ?sa")
    case None
    note A = None
    show ?thesis
    proof (cases "mb ?sa")
      case None
      from new_seq_p_refines[OF ab, of a b] obtain st' where
        "new_seq_p a b st = Some st'"
        "abstracts st' (cb\<lparr>cb_s := \<lparr>head = a, mid = [], tail = b, closed_flag = False\<rparr> # cb_s cb,
              cb_count := cb_count cb + 1\<rparr>)"
        unfolding abstracts_def by blast
      with A None m(1) rel show ?thesis
        by (simp add: addSegment_p_def addSegment_def Let_def)
    next
      case (Some j)
      from extend_p_refines[OF ab lt, of j "prependB ?sa" a] Some
      obtain st' where "extend_p (prependB ?sa) a (ls ! j) st = Some st'"
        "abstracts st' (cb\<lparr>cb_s := (cb_s cb)[j := (if prependB ?sa
            then prepend_node a (cb_s cb ! j) else append_node a (cb_s cb ! j))]\<rparr>)"
        unfolding abstracts_def by blast
      with A Some m(1) rel show ?thesis
        by (simp add: addSegment_p_def addSegment_def Let_def)
    qed
  next
    case (Some i)
    note A = Some
    show ?thesis
    proof (cases "mb ?sa")
      case None
      from extend_p_refines[OF ab lt, of i "prependA ?sa" b] A
      obtain st' where "extend_p (prependA ?sa) b (ls ! i) st = Some st'"
        "abstracts st' (cb\<lparr>cb_s := (cb_s cb)[i := (if prependA ?sa
            then prepend_node b (cb_s cb ! i) else append_node b (cb_s cb ! i))]\<rparr>)"
        unfolding abstracts_def by blast
      with A None m(1) rel show ?thesis
        by (simp add: addSegment_p_def addSegment_def Let_def)
    next
      case (Some j)
      have i: "i < length ls" and j: "j < length ls" using lt A Some by blast+
      have eq: "ls ! i = ls ! j \<longleftrightarrow> i = j" using d(12) i j by (simp add: nth_eq_iff_index_eq)
      show ?thesis
      proof (cases "i = j")
        case True
        from close_p_refines[OF ab i] obtain st' where
          "close_p (ls ! i) st = Some st'"
          "abstracts st' (cb\<lparr>cb_s := (cb_s cb)[i := close_chain (cb_s cb ! i)]\<rparr>)"
          unfolding abstracts_def by blast
        with A Some m(1) rel True show ?thesis
          by (simp add: addSegment_p_def addSegment_def Let_def)
      next
        case False
        from merge_p_refines[OF ab i j False, of "prependA ?sa" "prependB ?sa"]
        obtain st' where "merge_p (prependA ?sa) (prependB ?sa) (ls ! i) (ls ! j) st = Some st'"
          "abstracts st' (merge_seqs (prependA ?sa) (prependB ?sa) i j cb)" by blast
        with A Some m(1) rel False eq show ?thesis
          by (simp add: addSegment_p_def addSegment_def Let_def)
      qed
    qed
  qed
qed

text \<open>A new builder is represented by the empty store, and so is every builder reached from it.\<close>

lemma abstracts_new: "abstracts (new_pstore l) (new_ContourBuilder l)"
  unfolding abstracts_def abstracts_by_def
  by (rule exI[of _ "[]"], rule exI[of _ "[]"])
     (simp add: new_pstore_def new_ContourBuilder_def dll_def first_def)

lemma addSegments_p_refines:
  assumes "abstracts st cb"
  shows "\<exists>st'. addSegments_p segs st = Some st' \<and> abstracts st' (addSegments segs cb)"
  using assms
proof (induction segs arbitrary: st cb)
  case Nil
  then show ?case by (simp add: addSegments_def)
next
  case (Cons s segs)
  obtain a b where s: "s = (a, b)" by (cases s)
  from addSegment_p_refines[OF Cons.prems, of a b] obtain st1 where st1:
    "addSegment_p a b st = Some st1" "abstracts st1 (addSegment a b cb)" by blast
  from Cons.IH[OF st1(2)] st1(1) show ?case by (simp add: s addSegments_def)
qed

lemma walk_nodes_path:
  assumes "path (nxt ns) p as" and "set as \<subseteq> dom ns"
  shows "walk_nodes ns p = Some (map (\<lambda>a. n_p (the (ns a))) as)"
  using assms
proof (induction as arbitrary: p)
  case Nil
  then show ?case by (simp add: walk_nodes.simps)
next
  case (Cons a as)
  from Cons.prems obtain n where n: "ns a = Some n" by auto
  have "nxt ns a = n_next n" using n by (rule nxt_Some)
  with Cons.prems have "path (nxt ns) (n_next n) as" by simp
  from Cons.IH[OF this] Cons.prems have "walk_nodes ns (n_next n) = Some (map (\<lambda>a. n_p (the (ns a))) as)"
    by simp
  with Cons.prems n show ?case by (subst walk_nodes.simps) simp
qed

lemma walk_nodes_rep:
  assumes "chain_rep ns sq as c"
  shows "walk_nodes ns (Some (s_head sq)) = Some (points_of c)"
proof -
  from assms have r: "dll (nxt ns) (prv ns) as" "set as \<subseteq> dom ns" "as \<noteq> []"
    "s_head sq = hd as" "map (\<lambda>a. n_p (the (ns a))) as = points_of c"
    by (simp_all add: chain_rep_def)
  from dll_path[OF r(1)] r(3,4) have "path (nxt ns) (Some (s_head sq)) as"
    by (cases as) (simp_all add: first_def)
  from walk_nodes_path[OF this r(2)] r(5) show ?thesis by simp
qed

lemma walk_seqs_path:
  assumes "path (snxt (ps_seqs st)) p ls"
    and "\<forall>n<length ls. \<exists>as. rep_at st (ls ! n) as (cs ! n)" and "length cs = length ls"
  shows "walk_seqs st p = Some (map (\<lambda>c. (points_of c, closed_flag c)) cs)"
  using assms
proof (induction ls arbitrary: p cs)
  case Nil
  then show ?case by (simp add: walk_seqs.simps)
next
  case (Cons l ls)
  from Cons.prems(3) obtain c cs' where cs: "cs = c # cs'" by (cases cs) auto
  from Cons.prems(2) obtain as where "rep_at st l as c" by (auto simp: cs)
  then obtain sq where sq: "ps_seqs st l = Some sq" "chain_rep (ps_nodes st) sq as c"
    by (auto simp: rep_at_def)
  have cl: "s_closed sq = closed_flag c" using sq(2) by (simp add: chain_rep_def)
  have "snxt (ps_seqs st) l = s_next sq" using sq(1) by (simp add: snxt_def)
  with Cons.prems(1) have p: "p = Some l" "path (snxt (ps_seqs st)) (s_next sq) ls"
    by simp_all
  have "\<forall>n<length ls. \<exists>as. rep_at st (ls ! n) as (cs' ! n)"
  proof (intro allI impI)
    fix n assume "n < length ls"
    then have "Suc n < length (l # ls)" by simp
    with Cons.prems(2) have "\<exists>as. rep_at st ((l # ls) ! Suc n) as (cs ! Suc n)" by blast
    then show "\<exists>as. rep_at st (ls ! n) as (cs' ! n)" by (simp add: cs)
  qed
  from Cons.IH[OF p(2) this] Cons.prems(3)
  have "walk_seqs st (s_next sq) = Some (map (\<lambda>c. (points_of c, closed_flag c)) cs')"
    by (simp add: cs)
  with sq(1) walk_nodes_rep[OF sq(2)] cl p(1) show ?case
    by (subst walk_seqs.simps) (simp add: cs)
qed

text \<open>
  The walks of \<^verbatim>\<open>contourList\<close> return, for every record in list order, the points of
  its chain and its \<^verbatim>\<open>closed\<close> field.
\<close>

lemma walk_seqs_refines:
  assumes "abstracts st cb"
  shows "walk_seqs st (ps_s st) = Some (map (\<lambda>c. (points_of c, closed_flag c)) (cb_s cb))"
proof -
  from assms obtain ls ass where ab: "abstracts_by ls ass st cb" by (auto simp: abstracts_def)
  note d = abstracts_byD[OF ab]
  have "path (snxt (ps_seqs st)) (ps_s st) ls" using dll_path[OF d(1)] d(3) by simp
  moreover have "\<forall>n<length ls. \<exists>as. rep_at st (ls ! n) as (cb_s cb ! n)" using d(6) by blast
  ultimately show ?thesis using d(5) by (rule walk_seqs_path)
qed

text \<open>
  From a new builder: feeding any list of segments to the linked records returns, the
  store reached represents the chain list reached by \<open>addSegments\<close>, and the walks
  of \<^verbatim>\<open>contourList\<close> read that chain list from it.
\<close>

lemma builder_refines:
  "\<exists>st'. addSegments_p segs (new_pstore l) = Some st'
     \<and> abstracts st' (addSegments segs (new_ContourBuilder l))
     \<and> walk_seqs st' (ps_s st')
         = Some (map (\<lambda>c. (points_of c, closed_flag c))
                  (cb_s (addSegments segs (new_ContourBuilder l))))"
proof -
  from addSegments_p_refines[OF abstracts_new, of segs l] obtain st' where st':
    "addSegments_p segs (new_pstore l) = Some st'"
    "abstracts st' (addSegments segs (new_ContourBuilder l))" by blast
  from walk_seqs_refines[OF st'(2)] st' show ?thesis by blast
qed

end
